theory Spec2Isabelle
  imports Main
begin

section \<open>Memory model of tcp_server.c\<close>

text \<open>
  The server keeps pointers to heap records that point back to the server, and
  \<open>disconnect\<close> writes through \<open>server->clients[client->slot]\<close>, so the model
  has an explicit store: pointers are addresses, a dereference of an address that
  holds no object is a fault, and a block returned by \<open>malloc\<close> holds
  indeterminate contents that the caller supplies.
\<close>

type_synonym ptr = nat

definition NULL :: ptr where
  "NULL = 0"

definition MAX_CLIENTS :: int where
  "MAX_CLIENTS = 5"

definition INT_MAX :: int where
  "INT_MAX = 2147483647"

definition INT_MIN :: int where
  "INT_MIN = - 2147483648"

text \<open>libuv's end-of-file code (uv-errno.h).\<close>

definition UV_EOF :: int where
  "UV_EOF = - 4095"

text \<open>\<open>luv_client_t\<close>; the leading \<open>uv_tcp_t\<close> is the record's own address.\<close>

record luv_client_t =
  id' :: int
  slot :: int
  server :: ptr

record luv_client_msg_t =
  buf :: ptr
  len :: int
  client :: ptr

text \<open>
  \<open>struct luv_server_s\<close>. The three hook fields are function pointers set once by
  \<open>luv_server_create\<close>; they are kept outside the store, in \<open>hooks\<close> below.
\<close>

record luv_server_t =
  host :: string
  port :: int
  clients :: "ptr list"
  num_clients :: int
  ids :: int

text \<open>libuv's \<open>uv_buf_t\<close>.\<close>

record uv_buf_t =
  base :: ptr
  buf_len :: int

datatype fault =
    Process_exit
  | Null_deref
  | Invalid_deref
  | Out_of_bounds
  | Invalid_free

text \<open>
  What the program does to the outside, in order. The blocks for requests and
  messages are never read back by this file; their allocation is taken to succeed.
\<close>

datatype effect =
    Log_info string "int list"
  | Log_warn string "int list"
  | Log_error string "int list"
  | Malloc_client ptr
  | Malloc_msg
  | Malloc_write_req
  | Malloc_shutdown_req
  | Free ptr
  | Uv_tcp_init ptr
  | Uv_accept ptr ptr
  | Uv_read_start ptr
  | Uv_write ptr string
  | Uv_shutdown ptr
  | Uv_close ptr
  | Call_connected ptr int
  | Call_disconnected ptr int
  | Call_msg luv_client_msg_t

record state =
  servers :: "ptr \<rightharpoonup> luv_server_t"
  heap :: "ptr \<rightharpoonup> luv_client_t"
  bufs :: "ptr \<rightharpoonup> string"
  trace :: "effect list"

text \<open>
  The substrate and the macro the file takes from elsewhere. \<open>CHECK\<close> is defined in
  learnuv.h, which is not part of the sources: whether it ends the process after
  logging is the parameter \<open>check_exits\<close>. The return codes of the libuv calls are
  given per handle.
\<close>

record env =
  check_exits :: bool
  uv_tcp_init_rc :: "ptr \<Rightarrow> int"
  uv_accept_rc :: "ptr \<Rightarrow> int"
  uv_read_start_rc :: "ptr \<Rightarrow> int"
  uv_write_rc :: "ptr \<Rightarrow> int"
  uv_shutdown_rc :: "ptr \<Rightarrow> int"
  uv_ip4_addr_rc :: int
  uv_tcp_bind_rc :: "ptr \<Rightarrow> int"

type_synonym 'a result = "fault + 'a"

type_synonym responder = "luv_client_msg_t \<Rightarrow> string \<Rightarrow> state \<Rightarrow> state result"

record hooks =
  onclient_connected :: "ptr \<Rightarrow> int \<Rightarrow> state \<Rightarrow> state result"
  onclient_disconnected :: "ptr \<Rightarrow> int \<Rightarrow> state \<Rightarrow> state result"
  onclient_msg :: "luv_client_msg_t \<Rightarrow> responder \<Rightarrow> state \<Rightarrow> state result"

subsection \<open>Primitive steps\<close>

definition bindE :: "'a result \<Rightarrow> ('a \<Rightarrow> 'b result) \<Rightarrow> 'b result" where
  "bindE m f = (case m of Inl e \<Rightarrow> Inl e | Inr x \<Rightarrow> f x)"

definition emit :: "effect list \<Rightarrow> state \<Rightarrow> state" where
  "emit es s = s\<lparr>trace := trace s @ es\<rparr>"

text \<open>
  Modelled from the spec: the \<open>CHECK\<close> macro of learnuv.h (absent from the
  sources). On a nonzero code the failure is logged; the process then either ends
  or goes on, as \<open>check_exits\<close> says.
\<close>

definition CHECK :: "env \<Rightarrow> int \<Rightarrow> string \<Rightarrow> state \<Rightarrow> state result" where
  "CHECK e r msg s =
     (if r \<noteq> 0 then
        (if check_exits e then Inl Process_exit else Inr (emit [Log_error msg [r]] s))
      else Inr s)"

text \<open>The line \<open>CHECK\<close> leaves in the trace when it goes on.\<close>

definition check_log :: "int \<Rightarrow> string \<Rightarrow> effect list" where
  "check_log r msg = (if r \<noteq> 0 then [Log_error msg [r]] else [])"

definition get_client :: "state \<Rightarrow> ptr \<Rightarrow> luv_client_t result" where
  "get_client s p =
     (if p = NULL then Inl Null_deref
      else case heap s p of None \<Rightarrow> Inl Invalid_deref | Some c \<Rightarrow> Inr c)"

definition get_server :: "state \<Rightarrow> ptr \<Rightarrow> luv_server_t result" where
  "get_server s p =
     (if p = NULL then Inl Null_deref
      else case servers s p of None \<Rightarrow> Inl Invalid_deref | Some v \<Rightarrow> Inr v)"

definition put_client :: "ptr \<Rightarrow> luv_client_t \<Rightarrow> state \<Rightarrow> state" where
  "put_client p c s = s\<lparr>heap := (heap s)(p \<mapsto> c)\<rparr>"

definition put_server :: "ptr \<Rightarrow> luv_server_t \<Rightarrow> state \<Rightarrow> state" where
  "put_server p v s = s\<lparr>servers := (servers s)(p \<mapsto> v)\<rparr>"

text \<open>\<open>clients[i]\<close>: the array has \<open>MAX_CLIENTS\<close> entries.\<close>

definition in_bounds :: "ptr list \<Rightarrow> int \<Rightarrow> bool" where
  "in_bounds xs i = (0 \<le> i \<and> i < MAX_CLIENTS \<and> nat i < length xs)"

definition array_get :: "ptr list \<Rightarrow> int \<Rightarrow> ptr result" where
  "array_get xs i = (if in_bounds xs i then Inr (xs ! nat i) else Inl Out_of_bounds)"

definition array_set :: "ptr list \<Rightarrow> int \<Rightarrow> ptr \<Rightarrow> (ptr list) result" where
  "array_set xs i p = (if in_bounds xs i then Inr (xs[nat i := p]) else Inl Out_of_bounds)"

text \<open>
  Arithmetic on C \<open>int\<close>: 32 bits in two's complement. An increment past
  \<open>INT_MAX\<close> gives \<open>INT_MIN\<close> and a decrement past \<open>INT_MIN\<close> gives \<open>INT_MAX\<close>,
  as in the built program.
\<close>

definition wrap_int :: "int \<Rightarrow> int" where
  "wrap_int x = (x + 2147483648) mod 4294967296 - 2147483648"

definition int_incr :: "int \<Rightarrow> int" where
  "int_incr x = wrap_int (x + 1)"

definition int_decr :: "int \<Rightarrow> int" where
  "int_decr x = wrap_int (x - 1)"

text \<open>\<open>free(p)\<close> of a read buffer: nothing for a null pointer.\<close>

definition free_buf :: "ptr \<Rightarrow> state \<Rightarrow> state result" where
  "free_buf p s =
     (if p = NULL then Inr s
      else if p \<in> dom (bufs s) then Inr (emit [Free p] (s\<lparr>bufs := (bufs s)(p := None)\<rparr>))
      else Inl Invalid_free)"

section \<open>The functions of tcp_server.c\<close>

subsection \<open>close_cb\<close>

definition close_cb :: "ptr \<Rightarrow> state \<Rightarrow> state result" where
  "close_cb client_p s =
     (if client_p = NULL then Inr (emit [Log_info ''Closed connection'' []] s)
      else if client_p \<in> dom (heap s) then
        Inr (emit [Free client_p, Log_info ''Closed connection'' []]
               (s\<lparr>heap := (heap s)(client_p := None)\<rparr>))
      else Inl Invalid_free)"

subsection \<open>disconnect\<close>

text \<open>
  Lines 77 to 80: the last client is moved into the slot of the one that leaves.
  The second assignment reads \<open>server->clients[client->slot]\<close> again, after the
  first has written it.
\<close>

definition move_last :: "ptr \<Rightarrow> ptr \<Rightarrow> int \<Rightarrow> state \<Rightarrow> state result" where
  "move_last client_p server_p last_slot s =
     bindE (get_client s client_p) (\<lambda>c.
     bindE (get_server s server_p) (\<lambda>srv.
     bindE (array_get (clients srv) last_slot) (\<lambda>moved.
     bindE (array_set (clients srv) (slot c) moved) (\<lambda>cs.
     let s1 = put_server server_p (srv\<lparr>clients := cs\<rparr>) s in
     bindE (get_client s1 client_p) (\<lambda>c1.
     bindE (get_server s1 server_p) (\<lambda>srv1.
     bindE (array_get (clients srv1) (slot c1)) (\<lambda>q.
     bindE (get_client s1 q) (\<lambda>cq.
     bindE (get_client s1 client_p) (\<lambda>c2.
     Inr (put_client q (cq\<lparr>slot := slot c2\<rparr>) s1))))))))))"

definition disconnect :: "env \<Rightarrow> hooks \<Rightarrow> ptr \<Rightarrow> state \<Rightarrow> state result" where
  "disconnect e hk client_p s =
     bindE (get_client s client_p) (\<lambda>c.
     let server_p = server c in
     bindE (get_server s server_p) (\<lambda>srv.
     let last_slot = int_decr (num_clients srv) in
     bindE (if slot c < last_slot then move_last client_p server_p last_slot s else Inr s) (\<lambda>s1.
     bindE (get_server s1 server_p) (\<lambda>srv1.
     let n = int_decr (num_clients srv1);
         s2 = put_server server_p (srv1\<lparr>num_clients := n\<rparr>) s1 in
     bindE (onclient_disconnected hk client_p n (emit [Call_disconnected client_p n] s2)) (\<lambda>s3.
     let s4 = emit [Malloc_shutdown_req, Uv_shutdown client_p] s3 in
     CHECK e (uv_shutdown_rc e client_p) ''uv_shutdown'' s4)))))"

subsection \<open>onconnection\<close>

text \<open>
  \<open>p\<close> is the address \<open>malloc\<close> returns for the client and \<open>junk\<close> what that
  block holds before it is written.
\<close>

definition onconnection ::
  "env \<Rightarrow> hooks \<Rightarrow> ptr \<Rightarrow> int \<Rightarrow> ptr \<Rightarrow> luv_client_t \<Rightarrow> state \<Rightarrow> state result" where
  "onconnection e hk tcp status p junk s =
     bindE (CHECK e status ''onconnection'' s) (\<lambda>s0.
     let s1 = emit [Log_info ''Accepting Connection'' []] s0 in
     bindE (get_server s1 tcp) (\<lambda>srv.
     if num_clients srv = MAX_CLIENTS then
       Inr (emit [Log_info ''exceeded allowed number of clients'' []] s1)
     else if p = NULL then Inl Null_deref
     else
       let s2 = emit [Malloc_client p, Uv_tcp_init p] (put_client p junk s1) in
       bindE (CHECK e (uv_tcp_init_rc e p) ''uv_tcp_init'' s2) (\<lambda>s3.
       let s4 = emit [Uv_accept tcp p] s3; r = uv_accept_rc e p in
       if r \<noteq> 0 then
         disconnect e hk p (emit [Log_error ''trying to accept connection %d'' [r]] s4)
       else
         bindE (get_server s4 tcp) (\<lambda>srv4.
         bindE (array_set (clients srv4) (num_clients srv4) p) (\<lambda>cs.
         let s5 = put_server tcp (srv4\<lparr>clients := cs\<rparr>) s4 in
         bindE (get_client s5 p) (\<lambda>c5.
         let s6 = put_client p (c5\<lparr>server := tcp\<rparr>) s5 in
         bindE (get_client s6 p) (\<lambda>c6.
         bindE (get_server s6 tcp) (\<lambda>srv6.
         let s7 = put_client p (c6\<lparr>slot := num_clients srv6\<rparr>) s6 in
         bindE (get_client s7 p) (\<lambda>c7.
         bindE (get_server s7 tcp) (\<lambda>srv7.
         let ids1 = int_incr (ids srv7);
             s8 = put_client p (c7\<lparr>id' := ids srv7\<rparr>) (put_server tcp (srv7\<lparr>ids := ids1\<rparr>) s7) in
         bindE (get_server s8 tcp) (\<lambda>srv8.
         let n = int_incr (num_clients srv8);
             s9 = put_server tcp (srv8\<lparr>num_clients := n\<rparr>) s8 in
         bindE (onclient_connected hk p n (emit [Call_connected p n] s9)) (\<lambda>s10.
         let s11 = emit [Uv_read_start p] s10 in
         CHECK e (uv_read_start_rc e p) ''uv_read_start'' s11))))))))))))"

subsection \<open>onclient_msg_processed and read_cb\<close>

definition onclient_msg_processed :: responder where
  "onclient_msg_processed msg response s =
     free_buf (buf msg) (emit [Malloc_write_req, Uv_write (client msg) response] s)"

definition read_cb :: "env \<Rightarrow> hooks \<Rightarrow> ptr \<Rightarrow> int \<Rightarrow> uv_buf_t \<Rightarrow> state \<Rightarrow> state result" where
  "read_cb e hk stream nread b s =
     bindE (get_client s stream) (\<lambda>c.
     if nread < 0 then
       bindE (if nread \<noteq> UV_EOF then CHECK e nread ''read_cb'' s else Inr s) (\<lambda>s1.
       bindE (free_buf (base b) s1) (\<lambda>s2.
       disconnect e hk stream s2))
     else if nread = 0 then free_buf (base b) s
     else
       let msg = \<lparr>buf = base b, len = nread, client = stream\<rparr> in
       bindE (get_server s (server c)) (\<lambda>srv.
       onclient_msg hk msg onclient_msg_processed (emit [Malloc_msg, Call_msg msg] s)))"

subsection \<open>alloc_cb\<close>

text \<open>\<open>p\<close> is what \<open>malloc(size)\<close> returns, null when it fails.\<close>

definition alloc_cb :: "ptr \<Rightarrow> int \<Rightarrow> state \<Rightarrow> uv_buf_t \<times> state" where
  "alloc_cb p sz s =
     (\<lparr>base = p, buf_len = sz\<rparr>,
      if p = NULL then emit [Log_error ''alloc_cb buffer didn't properly initialize'' []] s
      else s\<lparr>bufs := (bufs s)(p \<mapsto> [])\<rparr>)"

subsection \<open>luv_server_broadcast\<close>

text \<open>The \<open>for\<close> loop of lines 179 to 188, from index \<open>i\<close> on.\<close>

function broadcast_loop :: "env \<Rightarrow> ptr \<Rightarrow> string \<Rightarrow> int \<Rightarrow> state \<Rightarrow> state result" where
  "broadcast_loop e self msg i s =
     (case get_server s self of
        Inl f \<Rightarrow> Inl f
      | Inr srv \<Rightarrow>
          if i < num_clients srv then
            (case array_get (clients srv) i of
               Inl f \<Rightarrow> Inl f
             | Inr client_p \<Rightarrow>
                 if client_p = NULL then
                   broadcast_loop e self msg (i + 1)
                     (emit [Log_warn ''Client %d was not properly initialized, cannot send message to it.'' [i]] s)
                 else
                   (case CHECK e (uv_write_rc e client_p) ''uv_write''
                           (emit [Malloc_write_req, Uv_write client_p msg] s) of
                      Inl f \<Rightarrow> Inl f
                    | Inr s1 \<Rightarrow> broadcast_loop e self msg (i + 1) s1))
          else Inr s)"
  by pat_completeness auto
termination
proof (relation "measure (\<lambda>(e, self, msg, i, s).
         case get_server s self of Inl f \<Rightarrow> 0 | Inr srv \<Rightarrow> nat (num_clients srv - i))")
qed (auto simp: get_server_def emit_def CHECK_def split: if_splits option.splits)

declare broadcast_loop.simps [simp del]

definition luv_server_broadcast :: "env \<Rightarrow> ptr \<Rightarrow> string \<Rightarrow> state \<Rightarrow> state result" where
  "luv_server_broadcast e self msg s = broadcast_loop e self msg 0 s"

subsection \<open>luv_server_create\<close>

text \<open>
  \<open>p\<close> is the address \<open>malloc\<close> returns for the server and \<open>junk\<close> what the
  block holds. Only \<open>host\<close>, \<open>port\<close>, \<open>num_clients\<close> and the hooks are
  assigned: \<open>ids\<close> and the \<open>clients\<close> array keep what the block held.
\<close>

definition luv_server_create ::
  "env \<Rightarrow> ptr \<Rightarrow> luv_server_t \<Rightarrow> string \<Rightarrow> int \<Rightarrow> state \<Rightarrow> (ptr \<times> state) result" where
  "luv_server_create e p junk host_name port_no s =
     (if p = NULL then Inl Null_deref
      else
        let s1 = put_server p (junk\<lparr>host := host_name, port := port_no, num_clients := 0\<rparr>) s in
        bindE (CHECK e (uv_tcp_init_rc e p) ''uv_tcp_init'' (emit [Uv_tcp_init p] s1)) (\<lambda>s2.
        bindE (CHECK e (uv_ip4_addr_rc e) ''uv_ip4_addr'' s2) (\<lambda>s3.
        bindE (CHECK e (uv_tcp_bind_rc e p) ''uv_tcp_bind'' s3) (\<lambda>s4.
        Inr (p, s4)))))"

subsection \<open>The application's hooks (lines 250 to 263)\<close>

definition app_onclient_connected :: "env \<Rightarrow> ptr \<Rightarrow> int \<Rightarrow> state \<Rightarrow> state result" where
  "app_onclient_connected e client_p total_connections s =
     (let s1 = emit [Log_info ''New player, %d total now.'' [total_connections]] s in
      bindE (get_client s1 client_p) (\<lambda>c.
      luv_server_broadcast e (server c) ''Welcome player\<newline>'' s1))"

definition app_onclient_disconnected :: "env \<Rightarrow> ptr \<Rightarrow> int \<Rightarrow> state \<Rightarrow> state result" where
  "app_onclient_disconnected e client_p total_connections s =
     bindE (get_client s client_p) (\<lambda>c.
     let s1 = emit [Log_info ''Player %d quit, %d total now.'' [id' c, total_connections]] s in
     bindE (get_client s1 client_p) (\<lambda>c1.
     luv_server_broadcast e (server c1) ''Player quit :(\<newline>'' s1))"

definition app_onclient_msg :: "luv_client_msg_t \<Rightarrow> responder \<Rightarrow> state \<Rightarrow> state result" where
  "app_onclient_msg msg respond s =
     bindE (get_client s (client msg)) (\<lambda>c.
     respond msg ''RaceTrack: WRONG''
       (emit [Log_info ''Got message %s from client %d'' [id' c]] s))"

definition app_hooks :: "env \<Rightarrow> hooks" where
  "app_hooks e =
     \<lparr>onclient_connected = app_onclient_connected e,
      onclient_disconnected = app_onclient_disconnected e,
      onclient_msg = app_onclient_msg\<rparr>"

section \<open>Notions used to state the properties\<close>

subsection \<open>The live part of the registry; the effects of a broadcast\<close>

text \<open>
  \<open>live_entries\<close> is \<open>clients[0..num_clients)\<close>. \<open>broadcast_effects\<close> is what one
  iteration of the broadcast loop emits for the entry \<open>p\<close> at index \<open>i\<close> when
  \<open>CHECK\<close> goes on; \<open>writes_of\<close> reads the writes off a list of effects.
\<close>

definition live_entries :: "state \<Rightarrow> ptr \<Rightarrow> ptr list" where
  "live_entries s self =
     (case servers s self of None \<Rightarrow> [] | Some srv \<Rightarrow> take (nat (num_clients srv)) (clients srv))"

definition broadcast_effects :: "env \<Rightarrow> string \<Rightarrow> nat \<times> ptr \<Rightarrow> effect list" where
  "broadcast_effects e msg ip =
     (if snd ip = NULL then
        [Log_warn ''Client %d was not properly initialized, cannot send message to it.'' [int (fst ip)]]
      else [Malloc_write_req, Uv_write (snd ip) msg]
           @ (if uv_write_rc e (snd ip) \<noteq> 0 then [Log_error ''uv_write'' [uv_write_rc e (snd ip)]] else []))"

fun writes_of :: "effect list \<Rightarrow> (ptr \<times> string) list" where
  "writes_of [] = []"
| "writes_of (Uv_write p m # es) = (p, m) # writes_of es"
| "writes_of (_ # es) = writes_of es"

subsection \<open>What a hook may do\<close>

text \<open>
  The hooks are the application's code. They reach the server through
  \<open>luv_server_broadcast\<close> and the responder only: a hook that returns leaves the
  servers and the client records as they were and adds effects of those two
  functions (and log lines) to the trace.
\<close>

fun app_effect :: "effect \<Rightarrow> bool" where
  "app_effect (Log_info _ _) = True"
| "app_effect (Log_warn _ _) = True"
| "app_effect (Log_error _ _) = True"
| "app_effect Malloc_write_req = True"
| "app_effect (Uv_write _ _) = True"
| "app_effect (Free _) = True"
| "app_effect _ = False"

definition hook_frame :: "(state \<Rightarrow> state result) \<Rightarrow> bool" where
  "hook_frame h =
     (\<forall>s s'. h s = Inr s' \<longrightarrow>
        servers s' = servers s \<and> heap s' = heap s \<and>
        (\<exists>es. trace s' = trace s @ es \<and> list_all app_effect es))"

definition hooks_ok :: "hooks \<Rightarrow> bool" where
  "hooks_ok hk =
     (\<forall>p n. hook_frame (onclient_connected hk p n) \<and> hook_frame (onclient_disconnected hk p n))"

subsection \<open>Well-formed registries\<close>

text \<open>
  \<open>registry_ok\<close>: the array has \<open>MAX_CLIENTS\<close> entries,
  \<open>0 \<le> num_clients \<le> MAX_CLIENTS\<close>, and the live entries are non-null, pairwise
  distinct, each the address of a record whose \<open>slot\<close> is its index and whose
  \<open>server\<close> is this server, with pairwise distinct ids. \<open>registry_core\<close> is the
  same without the condition on the ids. \<open>id_age counter i\<close> is the number of
  increments, modulo \<open>2 ^ 32\<close>, that lead from the successor of \<open>i\<close> to
  \<open>counter\<close>. \<open>ids_recent\<close>: every live record got its id within the last
  \<open>k\<close> increments of the server's counter.
\<close>

definition entry_ok :: "state \<Rightarrow> ptr \<Rightarrow> nat \<times> ptr \<Rightarrow> bool" where
  "entry_ok s self ip =
     (case heap s (snd ip) of
        None \<Rightarrow> False
      | Some c \<Rightarrow> slot c = int (fst ip) \<and> server c = self)"

definition id_of :: "state \<Rightarrow> ptr \<Rightarrow> int option" where
  "id_of s p = map_option id' (heap s p)"

definition registry_ok :: "state \<Rightarrow> ptr \<Rightarrow> bool" where
  "registry_ok s self =
     (self \<noteq> NULL \<and>
      (case servers s self of
         None \<Rightarrow> False
       | Some srv \<Rightarrow>
           length (clients srv) = nat MAX_CLIENTS \<and>
           0 \<le> num_clients srv \<and> num_clients srv \<le> MAX_CLIENTS \<and>
           distinct (live_entries s self) \<and>
           NULL \<notin> set (live_entries s self) \<and>
           list_all (entry_ok s self) (enumerate 0 (live_entries s self)) \<and>
           distinct (map (id_of s) (live_entries s self))))"

definition registry_core :: "state \<Rightarrow> ptr \<Rightarrow> bool" where
  "registry_core s self =
     (self \<noteq> NULL \<and>
      (case servers s self of
         None \<Rightarrow> False
       | Some srv \<Rightarrow>
           length (clients srv) = nat MAX_CLIENTS \<and>
           0 \<le> num_clients srv \<and> num_clients srv \<le> MAX_CLIENTS \<and>
           distinct (live_entries s self) \<and>
           NULL \<notin> set (live_entries s self) \<and>
           list_all (entry_ok s self) (enumerate 0 (live_entries s self))))"

definition id_age :: "int \<Rightarrow> int \<Rightarrow> int" where
  "id_age counter i = (counter - i - 1) mod 4294967296"

definition ids_recent :: "state \<Rightarrow> ptr \<Rightarrow> nat \<Rightarrow> bool" where
  "ids_recent s self k =
     (case servers s self of
        None \<Rightarrow> False
      | Some srv \<Rightarrow>
          list_all (\<lambda>p. case heap s p of
                         None \<Rightarrow> False
                       | Some c \<Rightarrow> id_age (ids srv) (id' c) < int k)
            (live_entries s self))"

subsection \<open>Removal and insertion as the specification words them\<close>

text \<open>
  Removal: if the record's slot is not the last live index, the record at the last
  index moves into that slot and its \<open>slot\<close> field is set to it; the count is
  decremented. Insertion: the record is appended at index \<open>count\<close>, gets that slot
  and the next identity; the count is incremented.
\<close>

definition slot_swap_remove :: "ptr \<Rightarrow> ptr \<Rightarrow> state \<Rightarrow> state" where
  "slot_swap_remove self p s =
     (case (servers s self, heap s p) of
        (Some srv, Some c) \<Rightarrow>
          if slot c < num_clients srv - 1 then
            (let q = clients srv ! nat (num_clients srv - 1) in
             case heap s q of
               None \<Rightarrow> s
             | Some cq \<Rightarrow>
                 s\<lparr>servers := (servers s)(self \<mapsto>
                      srv\<lparr>clients := (clients srv)[nat (slot c) := q],
                          num_clients := num_clients srv - 1\<rparr>),
                   heap := (heap s)(q \<mapsto> cq\<lparr>slot := slot c\<rparr>)\<rparr>)
          else s\<lparr>servers := (servers s)(self \<mapsto> srv\<lparr>num_clients := num_clients srv - 1\<rparr>)\<rparr>
      | _ \<Rightarrow> s)"

definition registry_insert :: "ptr \<Rightarrow> ptr \<Rightarrow> state \<Rightarrow> state" where
  "registry_insert self p s =
     (case servers s self of
        None \<Rightarrow> s
      | Some srv \<Rightarrow>
          s\<lparr>servers := (servers s)(self \<mapsto>
               srv\<lparr>clients := (clients srv)[nat (num_clients srv) := p],
                   ids := int_incr (ids srv),
                   num_clients := num_clients srv + 1\<rparr>),
            heap := (heap s)(p \<mapsto> \<lparr>id' = ids srv, slot = num_clients srv, server = self\<rparr>)\<rparr>)"

subsection \<open>Event sequences\<close>

text \<open>
  The events the loop delivers to the server: a connection (with the status, the
  block \<open>malloc\<close> returns and its contents), the disconnect of a client, and the
  close callback of a client. \<open>live_step\<close> is the live set as the specification
  sees it, and \<open>accept_count\<close> the number of connections it takes in.
  \<open>admissible\<close> is what the substrate guarantees for an event:
  \<open>malloc\<close> returns a block that is not in use and the accept succeeds; a
  disconnect is delivered for a live client; a close completes for a client that
  is no longer live. \<open>accepted_ids\<close> collects, in order, the id of every connection an
  event has put into the registry.
\<close>

datatype event =
    Connection int ptr luv_client_t
  | Disconnect ptr
  | Closed ptr

fun step :: "env \<Rightarrow> hooks \<Rightarrow> ptr \<Rightarrow> event \<Rightarrow> state \<Rightarrow> state result" where
  "step e hk self (Connection status p junk) s = onconnection e hk self status p junk s"
| "step e hk self (Disconnect p) s = disconnect e hk p s"
| "step e hk self (Closed p) s = close_cb p s"

fun run :: "env \<Rightarrow> hooks \<Rightarrow> ptr \<Rightarrow> event list \<Rightarrow> state \<Rightarrow> state result" where
  "run e hk self [] s = Inr s"
| "run e hk self (ev # evs) s = bindE (step e hk self ev s) (run e hk self evs)"

fun live_step :: "event \<Rightarrow> ptr list \<Rightarrow> ptr list" where
  "live_step (Connection status p junk) L = (if int (length L) < MAX_CLIENTS then L @ [p] else L)"
| "live_step (Disconnect p) L = removeAll p L"
| "live_step (Closed p) L = L"

fun live_after :: "event list \<Rightarrow> ptr list \<Rightarrow> ptr list" where
  "live_after [] L = L"
| "live_after (ev # evs) L = live_after evs (live_step ev L)"

fun accepts :: "event \<Rightarrow> ptr list \<Rightarrow> nat" where
  "accepts (Connection status p junk) L = (if int (length L) < MAX_CLIENTS then 1 else 0)"
| "accepts (Disconnect p) L = 0"
| "accepts (Closed p) L = 0"

fun accept_count :: "event list \<Rightarrow> ptr list \<Rightarrow> nat" where
  "accept_count [] L = 0"
| "accept_count (ev # evs) L = accepts ev L + accept_count evs (live_step ev L)"

fun admissible :: "env \<Rightarrow> ptr list \<Rightarrow> event \<Rightarrow> state \<Rightarrow> bool" where
  "admissible e L (Connection status p junk) s = (heap s p = None \<and> uv_accept_rc e p = 0)"
| "admissible e L (Disconnect p) s = (p \<in> set L)"
| "admissible e L (Closed p) s = (p \<notin> set L)"

fun admissible_run :: "env \<Rightarrow> hooks \<Rightarrow> ptr \<Rightarrow> event list \<Rightarrow> ptr list \<Rightarrow> state \<Rightarrow> bool" where
  "admissible_run e hk self [] L s = True"
| "admissible_run e hk self (ev # evs) L s =
     (admissible e L ev s \<and>
      (case step e hk self ev s of
         Inl f \<Rightarrow> True
       | Inr s1 \<Rightarrow> admissible_run e hk self evs (live_step ev L) s1))"

definition new_id :: "ptr \<Rightarrow> event \<Rightarrow> state \<Rightarrow> state \<Rightarrow> int list" where
  "new_id self ev s s1 =
     (case ev of
        Connection status p junk \<Rightarrow>
          if p \<in> set (live_entries s1 self) \<and> p \<notin> set (live_entries s self) then
            (case heap s1 p of None \<Rightarrow> [] | Some c \<Rightarrow> [id' c])
          else []
      | _ \<Rightarrow> [])"

fun accepted_ids :: "env \<Rightarrow> hooks \<Rightarrow> ptr \<Rightarrow> event list \<Rightarrow> state \<Rightarrow> int list" where
  "accepted_ids e hk self [] s = []"
| "accepted_ids e hk self (ev # evs) s =
     (case step e hk self ev s of
        Inl f \<Rightarrow> []
      | Inr s1 \<Rightarrow> new_id self ev s s1 @ accepted_ids e hk self evs s1)"

definition tracks :: "state \<Rightarrow> ptr \<Rightarrow> ptr list \<Rightarrow> bool" where
  "tracks s self L =
     (registry_core s self \<and> set (live_entries s self) = set L \<and> distinct L)"

definition ids_tracked :: "state \<Rightarrow> ptr \<Rightarrow> nat \<Rightarrow> bool" where
  "ids_tracked s self k =
     (distinct (map (id_of s) (live_entries s self)) \<and> ids_recent s self k)"

subsection \<open>Reading traces\<close>

definition new_effects :: "state \<Rightarrow> state \<Rightarrow> effect list" where
  "new_effects s s' = drop (length (trace s)) (trace s')"

fun warned :: "effect list \<Rightarrow> int list" where
  "warned [] = []"
| "warned (Log_warn m args # es) = args @ warned es"
| "warned (_ # es) = warned es"

fun disconnect_calls :: "ptr \<Rightarrow> effect list \<Rightarrow> nat" where
  "disconnect_calls p [] = 0"
| "disconnect_calls p (Call_disconnected q n # es) =
     (if q = p then Suc (disconnect_calls p es) else disconnect_calls p es)"
| "disconnect_calls p (_ # es) = disconnect_calls p es"

section \<open>Concrete configurations\<close>

text \<open>A substrate on which every call succeeds and \<open>CHECK\<close> logs and goes on.\<close>

definition env0 :: env where
  "env0 = \<lparr>check_exits = False, uv_tcp_init_rc = (\<lambda>p. 0), uv_accept_rc = (\<lambda>p. 0),
            uv_read_start_rc = (\<lambda>p. 0), uv_write_rc = (\<lambda>p. 0), uv_shutdown_rc = (\<lambda>p. 0),
            uv_ip4_addr_rc = 0, uv_tcp_bind_rc = (\<lambda>p. 0)\<rparr>"

text \<open>A server at address 100 with two clients, and one read buffer holding \<open>go\<close>.\<close>

definition st2 :: state where
  "st2 = \<lparr>servers = [100 \<mapsto> \<lparr>host = ''0.0.0.0'', port = 7000, clients = [201, 202, 0, 0, 0],
                              num_clients = 2, ids = 2\<rparr>],
          heap = [201 \<mapsto> \<lparr>id' = 0, slot = 0, server = 100\<rparr>,
                  202 \<mapsto> \<lparr>id' = 1, slot = 1, server = 100\<rparr>],
          bufs = [300 \<mapsto> ''go''],
          trace = []\<rparr>"

text \<open>The same server with all five slots taken.\<close>

definition st5 :: state where
  "st5 = \<lparr>servers = [100 \<mapsto> \<lparr>host = ''0.0.0.0'', port = 7000,
                              clients = [201, 202, 203, 204, 205], num_clients = 5, ids = 5\<rparr>],
          heap = [201 \<mapsto> \<lparr>id' = 0, slot = 0, server = 100\<rparr>,
                  202 \<mapsto> \<lparr>id' = 1, slot = 1, server = 100\<rparr>,
                  203 \<mapsto> \<lparr>id' = 2, slot = 2, server = 100\<rparr>,
                  204 \<mapsto> \<lparr>id' = 3, slot = 3, server = 100\<rparr>,
                  205 \<mapsto> \<lparr>id' = 4, slot = 4, server = 100\<rparr>],
          bufs = Map.empty,
          trace = []\<rparr>"

text \<open>
  A fresh process, the contents of the block \<open>luv_server_create\<close> gets, a block
  for a client, a sequence of events, and the state \<open>luv_server_create\<close> returns.
\<close>

definition s_init :: state where
  "s_init = \<lparr>servers = Map.empty, heap = Map.empty, bufs = Map.empty, trace = []\<rparr>"

definition junk_srv :: luv_server_t where
  "junk_srv = \<lparr>host = [], port = 0, clients = [7, 0, 13, 13, 2], num_clients = 99, ids = 40\<rparr>"

definition junk_cl :: luv_client_t where
  "junk_cl = \<lparr>id' = 77, slot = 3, server = 0\<rparr>"

definition evs0 :: "event list" where
  "evs0 = [Connection 0 201 junk_cl, Connection 0 202 junk_cl, Disconnect 201,
           Connection 0 203 junk_cl]"

definition s_created :: state where
  "s_created = \<lparr>servers = [100 \<mapsto> \<lparr>host = ''0.0.0.0'', port = 7000, clients = [7, 0, 13, 13, 2],
                                   num_clients = 0, ids = 40\<rparr>],
                heap = Map.empty, bufs = Map.empty, trace = [Uv_tcp_init 100]\<rparr>"

text \<open>
  The same with a block that held \<open>INT_MAX\<close> in the field \<open>ids\<close>, and two
  connections.
\<close>

definition junk_srv_max :: luv_server_t where
  "junk_srv_max = \<lparr>host = [], port = 0, clients = [7, 0, 13, 13, 2], num_clients = 99,
                    ids = 2147483647\<rparr>"

definition s_created_max :: state where
  "s_created_max = \<lparr>servers = [100 \<mapsto> \<lparr>host = ''0.0.0.0'', port = 7000, clients = [7, 0, 13, 13, 2],
                                   num_clients = 0, ids = 2147483647\<rparr>],
                heap = Map.empty, bufs = Map.empty, trace = [Uv_tcp_init 100]\<rparr>"

definition evs_two :: "event list" where
  "evs_two = [Connection 0 201 junk_cl, Connection 0 202 junk_cl]"

text \<open>
  A long run: client 201 connects and stays; client 202 connects, disconnects and is
  closed \<open>2 ^ 32 - 1\<close> times, then connects once more. \<open>wrap_st x i tr\<close> is the
  state between two rounds: 201 alone is live, \<open>clients[1]\<close> holds \<open>x\<close>, the
  counter is \<open>i\<close> and the trace \<open>tr\<close>.
\<close>

definition cycle202 :: "event list" where
  "cycle202 = [Connection 0 202 junk_cl, Disconnect 202, Closed 202]"

definition evs_wrap :: "event list" where
  "evs_wrap = Connection 0 201 junk_cl # concat (replicate 4294967295 cycle202)
                @ [Connection 0 202 junk_cl]"

definition wrap_st :: "ptr \<Rightarrow> int \<Rightarrow> effect list \<Rightarrow> state" where
  "wrap_st x i tr =
     \<lparr>servers = [100 \<mapsto> \<lparr>host = ''0.0.0.0'', port = 7000, clients = [201, x, 13, 13, 2],
                         num_clients = 1, ids = i\<rparr>],
      heap = [201 \<mapsto> \<lparr>id' = 40, slot = 0, server = 100\<rparr>], bufs = Map.empty, trace = tr\<rparr>"

text \<open>
  A substrate whose writes to client 201 fail, one whose accepts fail, a server
  state with a null entry among the live ones, and a recycled client block.
\<close>

definition env_wfail :: env where
  "env_wfail = env0\<lparr>uv_write_rc := (\<lambda>p. if p = 201 then - 32 else 0)\<rparr>"

definition env_afail :: env where
  "env_afail = env0\<lparr>uv_accept_rc := (\<lambda>p. - 24)\<rparr>"

definition st_gap :: state where
  "st_gap = \<lparr>servers = [100 \<mapsto> \<lparr>host = ''0.0.0.0'', port = 7000, clients = [201, 0, 202, 0, 0],
                              num_clients = 3, ids = 2\<rparr>],
          heap = [201 \<mapsto> \<lparr>id' = 0, slot = 0, server = 100\<rparr>,
                  202 \<mapsto> \<lparr>id' = 1, slot = 2, server = 100\<rparr>],
          bufs = Map.empty,
          trace = []\<rparr>"

definition stale_cl :: luv_client_t where
  "stale_cl = \<lparr>id' = 7, slot = 0, server = 100\<rparr>"

section \<open>Properties\<close>

lemma bindE_simps: "bindE (Inl f) g = Inl f" "bindE (Inr x) g = g x"
  by (simp_all add: bindE_def)

lemma wrap_int_id: "INT_MIN \<le> x \<Longrightarrow> x \<le> INT_MAX \<Longrightarrow> wrap_int x = x"
  by (simp add: wrap_int_def INT_MIN_def INT_MAX_def)

lemma wrap_int_small: "- 5 \<le> x \<Longrightarrow> x \<le> 6 \<Longrightarrow> wrap_int x = x"
  by (simp add: wrap_int_def)

lemma onconnection_full:
  assumes "tcp \<noteq> NULL" and "servers s tcp = Some srv" and "num_clients srv = MAX_CLIENTS"
  shows "onconnection e hk tcp status p junk s =
           (if status \<noteq> 0 \<and> check_exits e then Inl Process_exit
            else Inr (s\<lparr>trace := trace s
                     @ (if status \<noteq> 0 then [Log_error ''onconnection'' [status]] else [])
                     @ [Log_info ''Accepting Connection'' [],
                        Log_info ''exceeded allowed number of clients'' []]\<rparr>))"
  using assms
  by (simp add: onconnection_def CHECK_def bindE_def get_server_def emit_def Let_def)

subsection \<open>Traces and the broadcast loop\<close>

lemma writes_of_append: "writes_of (xs @ ys) = writes_of xs @ writes_of ys"
  by (induction xs rule: writes_of.induct) simp_all

lemma emit_emit: "emit ys (emit xs s) = emit (xs @ ys) s"
  by (simp add: emit_def)

lemma emit_fields [simp]:
  "servers (emit es s) = servers s" "heap (emit es s) = heap s" "bufs (emit es s) = bufs s"
  "trace (emit es s) = trace s @ es"
  by (simp_all add: emit_def)

lemma emit_Nil [simp]: "emit [] s = s"
  by (simp add: emit_def)

lemma broadcast_loop_eq:
  assumes "self \<noteq> NULL" and "servers s self = Some srv"
    and "num_clients srv \<le> MAX_CLIENTS" and "length (clients srv) = nat MAX_CLIENTS"
    and "\<not> check_exits e" and "0 \<le> i"
  shows "broadcast_loop e self msg i s =
           Inr (emit (concat (map (broadcast_effects e msg)
                  (drop (nat i) (enumerate 0 (take (nat (num_clients srv)) (clients srv)))))) s)"
  using assms
proof (induction "nat (num_clients srv - i)" arbitrary: i s)
  case 0
  then have "\<not> i < num_clients srv" by simp
  moreover from this have "drop (nat i) (enumerate 0 (take (nat (num_clients srv)) (clients srv))) = []"
    using 0 by simp
  ultimately show ?case
    using 0 by (subst broadcast_loop.simps) (simp add: get_server_def)
next
  case (Suc k)
  let ?n = "num_clients srv"
  let ?xs = "enumerate 0 (take (nat ?n) (clients srv))"
  from Suc have lt: "i < ?n" by simp
  with Suc have inb: "in_bounds (clients srv) i"
    by (simp add: in_bounds_def)
  have len: "nat i < length ?xs"
    using lt Suc.prems by (simp add: MAX_CLIENTS_def)
  have nth: "?xs ! nat i = (nat i, clients srv ! nat i)"
    using len by (simp add: nth_enumerate_eq)
  have drop: "drop (nat i) ?xs = (nat i, clients srv ! nat i) # drop (nat (i + 1)) ?xs"
    using Cons_nth_drop_Suc [OF len] nth Suc.prems by (simp add: nat_add_distrib)
  have k: "k = nat (?n - (i + 1))" using Suc by simp
  show ?case
  proof (cases "clients srv ! nat i = NULL")
    case True
    let ?s1 = "emit [Log_warn ''Client %d was not properly initialized, cannot send message to it.'' [i]] s"
    have "broadcast_loop e self msg (i + 1) ?s1 =
            Inr (emit (concat (map (broadcast_effects e msg) (drop (nat (i + 1)) ?xs))) ?s1)"
      using Suc.hyps(1) [OF k, of ?s1] Suc.prems by simp
    then show ?thesis
      using True lt inb Suc.prems drop
      by (subst broadcast_loop.simps)
         (simp add: get_server_def array_get_def broadcast_effects_def emit_emit)
  next
    case False
    let ?p = "clients srv ! nat i"
    let ?s1 = "emit ([Malloc_write_req, Uv_write ?p msg]
                 @ (if uv_write_rc e ?p \<noteq> 0 then [Log_error ''uv_write'' [uv_write_rc e ?p]] else [])) s"
    have chk: "CHECK e (uv_write_rc e ?p) ''uv_write'' (emit [Malloc_write_req, Uv_write ?p msg] s) = Inr ?s1"
      using Suc.prems by (simp add: CHECK_def emit_emit)
    have "broadcast_loop e self msg (i + 1) ?s1 =
            Inr (emit (concat (map (broadcast_effects e msg) (drop (nat (i + 1)) ?xs))) ?s1)"
      using Suc.hyps(1) [OF k, of ?s1] Suc.prems by simp
    then show ?thesis
      using False lt inb Suc.prems drop chk
      by (subst broadcast_loop.simps)
         (simp add: get_server_def array_get_def broadcast_effects_def emit_emit)
  qed
qed

lemma list_all_enumerate:
  "list_all P (enumerate 0 xs) = (\<forall>i < length xs. P (i, xs ! i))"
  by (auto simp: list_all_length nth_enumerate_eq)

lemma broadcast_loop_frame:
  "broadcast_loop e self msg i s = Inr s' \<Longrightarrow> 0 \<le> i \<Longrightarrow>
     \<exists>es. s' = emit es s \<and> list_all app_effect es \<and>
          fst ` set (writes_of es) \<subseteq> set (live_entries s self)"
proof (induction e self msg i s arbitrary: s' rule: broadcast_loop.induct)
  case (1 e self msg i s)
  show ?case
  proof (cases "get_server s self")
    case (Inl f)
    with "1.prems" show ?thesis
      by (subst (asm) broadcast_loop.simps) simp
  next
    case (Inr srv)
    then have srv: "servers s self = Some srv"
      by (auto simp: get_server_def split: if_splits option.splits)
    show ?thesis
    proof (cases "i < num_clients srv")
      case False
      with "1.prems" Inr have "s' = s"
        by (subst (asm) broadcast_loop.simps) simp
      then show ?thesis
        by (intro exI [of _ "[]"]) simp
    next
      case True
      show ?thesis
      proof (cases "array_get (clients srv) i")
        case (Inl f)
        with "1.prems" Inr True show ?thesis
          by (subst (asm) broadcast_loop.simps) simp
      next
        case p: (Inr p)
        then have inb: "in_bounds (clients srv) i" and pe: "p = clients srv ! nat i"
          by (auto simp: array_get_def split: if_splits)
        have pin: "p \<in> set (live_entries s self)"
          using srv True inb pe "1.prems"(2)
          by (auto simp: live_entries_def in_bounds_def in_set_conv_nth intro!: exI [of _ "nat i"])
        have live_emit: "\<And>es. live_entries (emit es s) self = live_entries s self"
          by (simp add: live_entries_def)
        show ?thesis
        proof (cases "p = NULL")
          case True
          let ?w = "[Log_warn ''Client %d was not properly initialized, cannot send message to it.'' [i]]"
          from "1.prems" Inr \<open>i < num_clients srv\<close> p True
          have rec: "broadcast_loop e self msg (i + 1) (emit ?w s) = Inr s'"
            by (subst (asm) broadcast_loop.simps) simp
          from "1.IH"(1) [OF Inr \<open>i < num_clients srv\<close> p True rec] "1.prems"(2)
          obtain es where "s' = emit es (emit ?w s)" "list_all app_effect es"
            "fst ` set (writes_of es) \<subseteq> set (live_entries s self)"
            by (auto simp: live_emit)
          then show ?thesis
            by (intro exI [of _ "?w @ es"]) (simp add: emit_emit writes_of_append)
        next
          case False
          let ?w = "[Malloc_write_req, Uv_write p msg]"
          show ?thesis
          proof (cases "CHECK e (uv_write_rc e p) ''uv_write'' (emit ?w s)")
            case (Inl f)
            with "1.prems" Inr \<open>i < num_clients srv\<close> p False show ?thesis
              by (subst (asm) broadcast_loop.simps) simp
          next
            case s1: (Inr s1)
            then obtain es1 where s1e: "s1 = emit (?w @ es1) s" and es1: "list_all app_effect es1"
              "writes_of es1 = []"
              by (auto simp: CHECK_def emit_emit split: if_splits intro: exI [of _ "[]"])
            from "1.prems" Inr \<open>i < num_clients srv\<close> p False s1
            have rec: "broadcast_loop e self msg (i + 1) s1 = Inr s'"
              by (subst (asm) broadcast_loop.simps) simp
            from "1.IH"(2) [OF Inr \<open>i < num_clients srv\<close> p False s1 rec] "1.prems"(2)
            obtain es where "s' = emit es s1" "list_all app_effect es"
              "fst ` set (writes_of es) \<subseteq> set (live_entries s self)"
              by (auto simp: live_emit s1e)
            then show ?thesis
              using s1e es1 pin
              by (intro exI [of _ "?w @ es1 @ es"]) (simp add: emit_emit writes_of_append)
          qed
        qed
      qed
    qed
  qed
qed

subsection \<open>Facts about well-formed registries\<close>

lemma registry_core_entry:
  assumes "registry_core s self" and "servers s self = Some srv" and "k < nat (num_clients srv)"
  shows "\<exists>c. heap s (clients srv ! k) = Some c \<and> slot c = int k \<and> server c = self"
    and "clients srv ! k \<noteq> NULL"
proof -
  have len: "k < length (live_entries s self)" and nth: "live_entries s self ! k = clients srv ! k"
    using assms by (auto simp: registry_core_def live_entries_def MAX_CLIENTS_def)
  from assms have "list_all (entry_ok s self) (enumerate 0 (live_entries s self))"
    by (simp add: registry_core_def)
  then have "entry_ok s self (k, live_entries s self ! k)"
    using len by (simp add: list_all_enumerate)
  then show "\<exists>c. heap s (clients srv ! k) = Some c \<and> slot c = int k \<and> server c = self"
    by (auto simp: entry_ok_def nth split: option.splits)
  from assms have "NULL \<notin> set (live_entries s self)"
    by (simp add: registry_core_def)
  then show "clients srv ! k \<noteq> NULL"
    using len nth by (metis nth_mem)
qed

lemma registry_core_live:
  assumes "registry_core s self" and "servers s self = Some srv"
    and "p \<in> set (live_entries s self)" and "heap s p = Some c"
  shows "0 \<le> slot c \<and> slot c < num_clients srv \<and> clients srv ! nat (slot c) = p \<and>
         server c = self \<and> p \<noteq> NULL"
proof -
  from assms(3) obtain k where k: "k < length (live_entries s self)" "live_entries s self ! k = p"
    by (auto simp: in_set_conv_nth)
  then have kn: "k < nat (num_clients srv)" and pk: "clients srv ! k = p"
    using assms(2) by (auto simp: live_entries_def)
  from registry_core_entry [OF assms(1,2) kn] pk assms(4)
  have "slot c = int k" "server c = self" "p \<noteq> NULL" by auto
  then show ?thesis using kn pk by auto
qed

lemma registry_core_bounds:
  assumes "registry_core s self" and "servers s self = Some srv"
  shows "self \<noteq> NULL" "length (clients srv) = 5" "0 \<le> num_clients srv" "num_clients srv \<le> 5"
  using assms by (auto simp: registry_core_def MAX_CLIENTS_def)

lemma get_put_simps [simp]:
  "servers (put_client p c s) = servers s"
  "heap (put_client p c s) = (heap s)(p \<mapsto> c)"
  "bufs (put_client p c s) = bufs s"
  "trace (put_client p c s) = trace s"
  "servers (put_server q v s) = (servers s)(q \<mapsto> v)"
  "heap (put_server q v s) = heap s"
  "bufs (put_server q v s) = bufs s"
  "trace (put_server q v s) = trace s"
  by (simp_all add: put_client_def put_server_def)

lemma get_server_Some: "p \<noteq> NULL \<Longrightarrow> servers s p = Some v \<Longrightarrow> get_server s p = Inr v"
  by (simp add: get_server_def)

lemma get_client_Some: "p \<noteq> NULL \<Longrightarrow> heap s p = Some c \<Longrightarrow> get_client s p = Inr c"
  by (simp add: get_client_def)

subsection \<open>disconnect on a registered client\<close>

lemma move_last_eq:
  assumes ok: "registry_core s self" and srv: "servers s self = Some srv"
    and live: "p \<in> set (live_entries s self)" and c: "heap s p = Some c"
    and lt: "slot c < num_clients srv - 1"
  shows "\<exists>cq. heap s (clients srv ! nat (num_clients srv - 1)) = Some cq \<and>
           clients srv ! nat (num_clients srv - 1) \<noteq> p \<and>
           move_last p self (num_clients srv - 1) s =
             Inr (s\<lparr>servers := (servers s)(self \<mapsto>
                       srv\<lparr>clients := (clients srv)[nat (slot c) := clients srv ! nat (num_clients srv - 1)]\<rparr>),
                    heap := (heap s)(clients srv ! nat (num_clients srv - 1) \<mapsto> cq\<lparr>slot := slot c\<rparr>)\<rparr>)"
proof -
  let ?n = "num_clients srv"
  let ?q = "clients srv ! nat (?n - 1)"
  note b = registry_core_bounds [OF ok srv]
  note l = registry_core_live [OF ok srv live c]
  have ln: "nat (?n - 1) < nat ?n" using lt l by simp
  from registry_core_entry [OF ok srv ln] obtain cq where
    cq: "heap s ?q = Some cq" "slot cq = int (nat (?n - 1))" and qn: "?q \<noteq> NULL"
    by auto
  have qp: "?q \<noteq> p"
  proof
    assume "?q = p"
    with cq(1) c have "cq = c" by simp
    with cq(2) lt l show False by simp
  qed
  have g1: "get_client s p = Inr c" using l c by (simp add: get_client_Some)
  have g2: "get_server s self = Inr srv" using b srv by (simp add: get_server_Some)
  have a1: "array_get (clients srv) (?n - 1) = Inr ?q"
    using b lt l by (simp add: array_get_def in_bounds_def MAX_CLIENTS_def)
  have a2: "array_set (clients srv) (slot c) ?q = Inr ((clients srv)[nat (slot c) := ?q])"
    using b lt l by (simp add: array_set_def in_bounds_def MAX_CLIENTS_def)
  let ?srv1 = "srv\<lparr>clients := (clients srv)[nat (slot c) := ?q]\<rparr>"
  let ?s1 = "put_server self ?srv1 s"
  have g3: "get_client ?s1 p = Inr c" using l c by (simp add: get_client_def)
  have g4: "get_server ?s1 self = Inr ?srv1" using b by (simp add: get_server_def)
  have a3: "array_get ((clients srv)[nat (slot c) := ?q]) (slot c) = Inr ?q"
    using b lt l by (simp add: array_get_def in_bounds_def MAX_CLIENTS_def)
  have g5: "get_client ?s1 ?q = Inr cq" using qn cq by (simp add: get_client_def)
  have "move_last p self (?n - 1) s = Inr (put_client ?q (cq\<lparr>slot := slot c\<rparr>) ?s1)"
    by (simp add: move_last_def g1 g2 a1 a2 g3 g4 a3 g5 bindE_simps Let_def)
  also have "put_client ?q (cq\<lparr>slot := slot c\<rparr>) ?s1 =
      s\<lparr>servers := (servers s)(self \<mapsto> ?srv1), heap := (heap s)(?q \<mapsto> cq\<lparr>slot := slot c\<rparr>)\<rparr>"
    by (simp add: put_client_def put_server_def)
  finally have "move_last p self (?n - 1) s =
      Inr (s\<lparr>servers := (servers s)(self \<mapsto> ?srv1), heap := (heap s)(?q \<mapsto> cq\<lparr>slot := slot c\<rparr>)\<rparr>)" .
  with cq(1) qp show ?thesis by (intro exI [of _ cq] conjI)
qed

lemma disconnect_live_eq:
  assumes ok: "registry_core s self" and srv: "servers s self = Some srv"
    and live: "p \<in> set (live_entries s self)" and c: "heap s p = Some c"
  shows "disconnect e hk p s =
           bindE (onclient_disconnected hk p (num_clients srv - 1)
                    (emit [Call_disconnected p (num_clients srv - 1)] (slot_swap_remove self p s)))
             (\<lambda>s3. CHECK e (uv_shutdown_rc e p) ''uv_shutdown''
                      (emit [Malloc_shutdown_req, Uv_shutdown p] s3))"
proof -
  let ?n = "num_clients srv"
  note b = registry_core_bounds [OF ok srv]
  note l = registry_core_live [OF ok srv live c]
  have sc: "server c = self" using l by simp
  have g1: "get_client s p = Inr c" using l c by (simp add: get_client_Some)
  have g2: "get_server s self = Inr srv" using b srv by (simp add: get_server_Some)
  have d1: "int_decr ?n = ?n - 1" using b by (simp add: int_decr_def wrap_int_small)
  show ?thesis
  proof (cases "slot c < ?n - 1")
    case True
    from move_last_eq [OF ok srv live c True] obtain cq where
      cq: "heap s (clients srv ! nat (?n - 1)) = Some cq" and
      mv: "move_last p self (?n - 1) s =
             Inr (s\<lparr>servers := (servers s)(self \<mapsto>
                       srv\<lparr>clients := (clients srv)[nat (slot c) := clients srv ! nat (?n - 1)]\<rparr>),
                    heap := (heap s)(clients srv ! nat (?n - 1) \<mapsto> cq\<lparr>slot := slot c\<rparr>)\<rparr>)"
      by (elim exE conjE)
    let ?q = "clients srv ! nat (?n - 1)"
    let ?srv1 = "srv\<lparr>clients := (clients srv)[nat (slot c) := ?q]\<rparr>"
    let ?s1 = "s\<lparr>servers := (servers s)(self \<mapsto> ?srv1),
                 heap := (heap s)(?q \<mapsto> cq\<lparr>slot := slot c\<rparr>)\<rparr>"
    have 1: "(if slot c < ?n - 1 then move_last p self (?n - 1) s else Inr s) = Inr ?s1"
      using True mv by simp
    have 2: "get_server ?s1 self = Inr ?srv1"
      using b by (simp add: get_server_def)
    have 3: "int_decr (num_clients ?srv1) = ?n - 1" using d1 by simp
    have 4: "put_server self (?srv1\<lparr>num_clients := ?n - 1\<rparr>) ?s1 = slot_swap_remove self p s"
      using True by (simp add: slot_swap_remove_def srv c cq Let_def put_server_def)
    show ?thesis
      unfolding disconnect_def
      by (simp only: g1 bindE_simps Let_def sc g2 d1 1 2 3 4)
  next
    case False
    have 1: "(if slot c < ?n - 1 then move_last p self (?n - 1) s else Inr s) = Inr s"
      using False by simp
    have 4: "put_server self (srv\<lparr>num_clients := ?n - 1\<rparr>) s = slot_swap_remove self p s"
      using False by (simp add: slot_swap_remove_def srv c put_server_def)
    show ?thesis
      unfolding disconnect_def
      by (simp only: g1 bindE_simps Let_def sc g2 d1 1 4)
  qed
qed

lemma registry_coreI:
  assumes "self \<noteq> NULL" and "servers s self = Some srv"
    and "length (clients srv) = 5" and "0 \<le> num_clients srv" and "num_clients srv \<le> 5"
    and "distinct (live_entries s self)" and "NULL \<notin> set (live_entries s self)"
    and "\<And>i. i < length (live_entries s self) \<Longrightarrow> entry_ok s self (i, live_entries s self ! i)"
  shows "registry_core s self"
  using assms by (simp add: registry_core_def MAX_CLIENTS_def list_all_enumerate)

lemma registry_ok_iff:
  "registry_ok s self \<longleftrightarrow>
     registry_core s self \<and> distinct (map (id_of s) (live_entries s self))"
  by (auto simp: registry_ok_def registry_core_def split: option.splits)

lemma registry_core_distinct:
  "registry_core s self \<Longrightarrow> distinct (live_entries s self) \<and> NULL \<notin> set (live_entries s self)"
  by (auto simp: registry_core_def split: option.splits)

lemma registry_core_nth:
  "registry_core s self \<Longrightarrow> i < length (live_entries s self) \<Longrightarrow>
     entry_ok s self (i, live_entries s self ! i)"
  by (auto simp: registry_core_def list_all_enumerate split: option.splits)

lemma slot_swap_remove_entries:
  assumes ok: "registry_core s self" and srv: "servers s self = Some srv"
    and live: "p \<in> set (live_entries s self)" and c: "heap s p = Some c"
  shows "live_entries (slot_swap_remove self p s) self =
           (if slot c < num_clients srv - 1
            then (butlast (live_entries s self))[nat (slot c) := last (live_entries s self)]
            else butlast (live_entries s self))"
proof -
  let ?n = "num_clients srv"
  note b = registry_core_bounds [OF ok srv]
  note l = registry_core_live [OF ok srv live c]
  have L: "live_entries s self = take (nat ?n) (clients srv)"
    using srv by (simp add: live_entries_def)
  have n1: "nat (?n - 1) = nat ?n - 1" by simp
  have bl: "butlast (take (nat ?n) (clients srv)) = take (nat ?n - 1) (clients srv)"
    using b by (simp add: butlast_take)
  show ?thesis
  proof (cases "slot c < ?n - 1")
    case True
    let ?q = "clients srv ! nat (?n - 1)"
    from move_last_eq [OF ok srv live c True] obtain cq where cq: "heap s ?q = Some cq"
      by (elim exE conjE)
    have ne: "take (nat ?n) (clients srv) \<noteq> []" and
      ln: "length (take (nat ?n) (clients srv)) = nat ?n"
      using b l True by auto
    have "last (take (nat ?n) (clients srv)) = take (nat ?n) (clients srv) ! (nat ?n - 1)"
      using last_conv_nth [OF ne] ln by simp
    also have "\<dots> = clients srv ! (nat ?n - 1)"
      using l True by (intro nth_take) simp
    finally have la: "last (take (nat ?n) (clients srv)) = ?q"
      by (simp add: n1)
    have "live_entries (slot_swap_remove self p s) self =
            take (nat (?n - 1)) ((clients srv)[nat (slot c) := ?q])"
      using True srv c cq by (simp add: slot_swap_remove_def Let_def live_entries_def)
    then show ?thesis
      using True la by (simp add: L bl take_update_swap n1)
  next
    case False
    have "live_entries (slot_swap_remove self p s) self = take (nat (?n - 1)) (clients srv)"
      using False srv c by (simp add: slot_swap_remove_def live_entries_def)
    then show ?thesis
      using False by (simp add: L bl n1)
  qed
qed

lemma slot_swap_remove_fields:
  assumes ok: "registry_core s self" and srv: "servers s self = Some srv"
    and live: "p \<in> set (live_entries s self)" and c: "heap s p = Some c"
  shows "servers (slot_swap_remove self p s) =
           (servers s)(self \<mapsto> srv\<lparr>clients :=
              (if slot c < num_clients srv - 1
               then (clients srv)[nat (slot c) := clients srv ! nat (num_clients srv - 1)]
               else clients srv),
              num_clients := num_clients srv - 1\<rparr>)"
    and "\<exists>cq. heap s (clients srv ! nat (num_clients srv - 1)) = Some cq \<and> server cq = self \<and>
            heap (slot_swap_remove self p s) =
              (if slot c < num_clients srv - 1
               then (heap s)(clients srv ! nat (num_clients srv - 1) \<mapsto> cq\<lparr>slot := slot c\<rparr>)
               else heap s)"
    and "bufs (slot_swap_remove self p s) = bufs s"
    and "trace (slot_swap_remove self p s) = trace s"
proof -
  let ?n = "num_clients srv"
  let ?q = "clients srv ! nat (?n - 1)"
  note l = registry_core_live [OF ok srv live c]
  have ln: "nat (?n - 1) < nat ?n" using l by simp
  from registry_core_entry(1) [OF ok srv ln] obtain cq where
    cq: "heap s ?q = Some cq" "server cq = self"
    by (elim exE conjE)
  show "servers (slot_swap_remove self p s) =
           (servers s)(self \<mapsto> srv\<lparr>clients :=
              (if slot c < ?n - 1 then (clients srv)[nat (slot c) := ?q] else clients srv),
              num_clients := ?n - 1\<rparr>)"
    using srv c cq by (simp add: slot_swap_remove_def Let_def)
  have "heap (slot_swap_remove self p s) =
              (if slot c < ?n - 1 then (heap s)(?q \<mapsto> cq\<lparr>slot := slot c\<rparr>) else heap s)"
    using srv c cq by (simp add: slot_swap_remove_def Let_def)
  with cq show "\<exists>cq. heap s ?q = Some cq \<and> server cq = self \<and>
            heap (slot_swap_remove self p s) =
              (if slot c < ?n - 1 then (heap s)(?q \<mapsto> cq\<lparr>slot := slot c\<rparr>) else heap s)"
    by (intro exI [of _ cq] conjI)
  show "bufs (slot_swap_remove self p s) = bufs s"
    using srv c cq by (simp add: slot_swap_remove_def Let_def)
  show "trace (slot_swap_remove self p s) = trace s"
    using srv c cq by (simp add: slot_swap_remove_def Let_def)
qed

lemma swap_last_list:
  assumes "distinct L" and "k < length L - 1"
  shows "distinct ((butlast L)[k := last L])"
    and "set ((butlast L)[k := last L]) = set L - {L ! k}"
    and "\<And>i. i < length L - 1 \<Longrightarrow> i \<noteq> k \<Longrightarrow> (butlast L)[k := last L] ! i = L ! i \<and> L ! i \<noteq> last L"
    and "(butlast L)[k := last L] ! k = last L"
proof -
  from assms have ne: "L \<noteq> []" by auto
  then have L: "L = butlast L @ [last L]" by simp
  let ?B = "butlast L" and ?x = "last L"
  from assms L have dB: "distinct ?B" and x: "?x \<notin> set ?B"
    by (metis distinct_append distinct.simps(2) disjoint_iff list.set_intros(1))+
  have kB: "k < length ?B" using assms by simp
  have Bk: "?B ! k = L ! k" using kB by (simp add: nth_butlast)
  show "distinct (?B[k := ?x])"
    using dB x by (simp add: distinct_list_update)
  have "set (?B[k := ?x]) = insert ?x (set ?B - {?B ! k})"
    using dB kB by (rule set_update_distinct)
  moreover have "set L = insert ?x (set ?B)" by (subst L) simp
  moreover have "?B ! k \<noteq> ?x" using x kB by (metis nth_mem)
  ultimately show "set (?B[k := ?x]) = set L - {L ! k}"
    using x Bk by auto
  show "(butlast L)[k := last L] ! k = last L" using kB by simp
  fix i assume i: "i < length L - 1" "i \<noteq> k"
  then have "?B ! i = L ! i" by (simp add: nth_butlast)
  moreover have "?B ! i \<in> set ?B" using i by simp
  ultimately show "(butlast L)[k := last L] ! i = L ! i \<and> L ! i \<noteq> last L"
    using i x by auto
qed

lemma live_entries_length:
  assumes "registry_core s self" and "servers s self = Some srv"
  shows "length (live_entries s self) = nat (num_clients srv)"
  using assms by (auto simp: registry_core_def live_entries_def MAX_CLIENTS_def)

lemma live_entries_nth:
  assumes "servers s self = Some srv" and "i < length (live_entries s self)"
  shows "live_entries s self ! i = clients srv ! i"
  using assms by (simp add: live_entries_def)

lemma slot_swap_remove_ok:
  assumes ok: "registry_core s self" and srv: "servers s self = Some srv"
    and live: "p \<in> set (live_entries s self)" and c: "heap s p = Some c"
  shows "registry_core (slot_swap_remove self p s) self"
    and "set (live_entries (slot_swap_remove self p s) self) = set (live_entries s self) - {p}"
    and "id_of (slot_swap_remove self p s) = id_of s"
proof -
  let ?n = "num_clients srv"
  let ?s' = "slot_swap_remove self p s"
  let ?L = "live_entries s self"
  let ?L' = "live_entries ?s' self"
  let ?k = "nat (slot c)"
  let ?q = "clients srv ! nat (?n - 1)"
  note b = registry_core_bounds [OF ok srv]
  note l = registry_core_live [OF ok srv live c]
  note f = slot_swap_remove_fields [OF ok srv live c]
  note d = registry_core_distinct [OF ok]
  have lenL: "length ?L = nat ?n" by (rule live_entries_length [OF ok srv])
  have kL: "?k < length ?L" using l lenL by simp
  have Lk: "?L ! ?k = p" using l live_entries_nth [OF srv kL] by simp
  have ne: "?L \<noteq> []" using kL by auto
  have lastq: "last ?L = ?q"
    using last_conv_nth [OF ne] lenL live_entries_nth [OF srv, of "nat ?n - 1"] l
    by (simp add: nat_diff_distrib)
  from f(2) obtain cq where cq: "heap s ?q = Some cq" "server cq = self" and
    hp: "heap ?s' = (if slot c < ?n - 1 then (heap s)(?q \<mapsto> cq\<lparr>slot := slot c\<rparr>) else heap s)"
    by (elim exE conjE)
  have idof: "id_of ?s' = id_of s"
    using cq by (auto simp: id_of_def hp fun_eq_iff)
  have L': "?L' = (if slot c < ?n - 1 then (butlast ?L)[?k := last ?L] else butlast ?L)"
    by (rule slot_swap_remove_entries [OF ok srv live c])
  have props: "distinct ?L' \<and> set ?L' = set ?L - {p} \<and>
      (\<forall>i < length ?L'. entry_ok ?s' self (i, ?L' ! i))"
  proof (cases "slot c < ?n - 1")
    case True
    then have k1: "?k < length ?L - 1" using l lenL by linarith
    note sw = swap_last_list [OF conjunct1 [OF d] k1]
    have len': "length ?L' = length ?L - 1" using L' True by simp
    have "entry_ok ?s' self (i, ?L' ! i)" if i: "i < length ?L'" for i
    proof (cases "i = ?k")
      case True
      then have "?L' ! i = ?q" using L' \<open>slot c < ?n - 1\<close> sw(4) lastq by simp
      then show ?thesis
        using True \<open>slot c < ?n - 1\<close> cq l by (simp add: entry_ok_def hp)
    next
      case False
      from sw(3) [of i] i len' False have e: "?L' ! i = ?L ! i" "?L ! i \<noteq> ?q"
        using L' \<open>slot c < ?n - 1\<close> lastq by auto
      have "entry_ok s self (i, ?L ! i)"
        using registry_core_nth [OF ok, of i] i len' by simp
      then show ?thesis
        using e by (simp add: entry_ok_def hp)
    qed
    then show ?thesis
      using sw(1,2) L' True Lk by simp
  next
    case False
    then have kl: "?k = length ?L - 1" using l lenL by linarith
    have pl: "p = last ?L" using Lk kl last_conv_nth [OF ne] by simp
    have app: "?L = butlast ?L @ [p]" using ne pl by simp
    have dd: "distinct (butlast ?L @ [p])" using d app by simp
    have "entry_ok ?s' self (i, ?L' ! i)" if i: "i < length ?L'" for i
    proof -
      have "?L' ! i = ?L ! i" using L' False i by (simp add: nth_butlast)
      moreover have "entry_ok s self (i, ?L ! i)"
        using registry_core_nth [OF ok, of i] i L' False by simp
      ultimately show ?thesis using False by (simp add: entry_ok_def hp)
    qed
    moreover have "set (butlast ?L) = set ?L - {p}"
      using dd by (subst (2) app) auto
    ultimately show ?thesis
      using L' False dd by simp
  qed
  then show set_eq: "set ?L' = set ?L - {p}" by simp
  have sv': "servers ?s' self = Some (srv\<lparr>clients :=
              (if slot c < ?n - 1 then (clients srv)[?k := ?q] else clients srv),
              num_clients := ?n - 1\<rparr>)"
    by (simp add: f(1))
  show "registry_core ?s' self"
  proof (rule registry_coreI [OF _ sv'])
    show "self \<noteq> NULL" by (rule b)
    show "length (clients (srv\<lparr>clients :=
              (if slot c < ?n - 1 then (clients srv)[?k := ?q] else clients srv),
              num_clients := ?n - 1\<rparr>)) = 5" using b by simp
    show "0 \<le> num_clients (srv\<lparr>clients :=
              (if slot c < ?n - 1 then (clients srv)[?k := ?q] else clients srv),
              num_clients := ?n - 1\<rparr>)" using l by simp
    show "num_clients (srv\<lparr>clients :=
              (if slot c < ?n - 1 then (clients srv)[?k := ?q] else clients srv),
              num_clients := ?n - 1\<rparr>) \<le> 5" using b by simp
    show "distinct ?L'" using props by simp
    show "NULL \<notin> set ?L'" using set_eq d by simp
    show "\<And>i. i < length ?L' \<Longrightarrow> entry_ok ?s' self (i, ?L' ! i)" using props by simp
  qed
  show "id_of ?s' = id_of s" by (rule idof)
qed

subsection \<open>onconnection with a successful accept\<close>

lemma bindE_CHECK_Inr:
  "bindE (CHECK e r m s) f = Inr y \<longleftrightarrow>
     \<not> (r \<noteq> 0 \<and> check_exits e) \<and> f (emit (check_log r m) s) = Inr y"
  by (simp add: CHECK_def bindE_def check_log_def)

lemma CHECK_Inr:
  "CHECK e r m s = Inr y \<longleftrightarrow> \<not> (r \<noteq> 0 \<and> check_exits e) \<and> y = emit (check_log r m) s"
  by (auto simp: CHECK_def check_log_def)

lemma bindE_Inr_iff: "bindE m f = Inr y \<longleftrightarrow> (\<exists>x. m = Inr x \<and> f x = Inr y)"
  by (cases m) (simp_all add: bindE_def)

lemma put_emit:
  "put_client p c (emit es s) = emit es (put_client p c s)"
  "put_server q v (emit es s) = emit es (put_server q v s)"
  by (simp_all add: put_client_def put_server_def emit_def)

lemma get_emit [simp]:
  "get_server (emit es s) q = get_server s q"
  "get_client (emit es s) p = get_client s p"
  by (simp_all add: get_server_def get_client_def)

lemma get_put [simp]:
  "get_server (put_client p c s) q = get_server s q"
  "get_client (put_server q v s) p = get_client s p"
  "q \<noteq> NULL \<Longrightarrow> get_server (put_server q v s) q = Inr v"
  "p \<noteq> NULL \<Longrightarrow> get_client (put_client p c s) p = Inr c"
  by (simp_all add: get_server_def get_client_def)

lemma client_overwritten:
  "junk\<lparr>server := a, slot := b, id' := c\<rparr> = \<lparr>id' = c, slot = b, server = a\<rparr>"
  by (cases junk) simp

lemma onconnection_accept:
  assumes ok: "registry_core s self" and srv: "servers s self = Some srv"
    and lt: "num_clients srv \<noteq> MAX_CLIENTS" and pn: "p \<noteq> NULL"
    and acc: "uv_accept_rc e p = 0"
    and res: "onconnection e hk self status p junk s = Inr s'"
  shows "\<exists>s10.
           onclient_connected hk p (num_clients srv + 1)
             (emit (check_log status ''onconnection''
                    @ [Log_info ''Accepting Connection'' [], Malloc_client p, Uv_tcp_init p]
                    @ check_log (uv_tcp_init_rc e p) ''uv_tcp_init''
                    @ [Uv_accept self p, Call_connected p (num_clients srv + 1)])
                (registry_insert self p s)) = Inr s10 \<and>
           s' = emit ([Uv_read_start p] @ check_log (uv_read_start_rc e p) ''uv_read_start'') s10"
proof -
  note b = registry_core_bounds [OF ok srv]
  have g: "get_server s self = Inr srv" using b srv by (simp add: get_server_Some)
  have n5: "num_clients srv < 5" using b lt by (simp add: MAX_CLIENTS_def)
  have as: "\<And>cs. length cs = 5 \<Longrightarrow>
      array_set cs (num_clients srv) p = Inr (cs[nat (num_clients srv) := p])"
    using b n5 by (simp add: array_set_def in_bounds_def MAX_CLIENTS_def)
  have inc: "int_incr (num_clients srv) = num_clients srv + 1"
    using b n5 by (simp add: int_incr_def wrap_int_small)
  have ri: "registry_insert self p s =
      put_server self (srv\<lparr>clients := (clients srv)[nat (num_clients srv) := p],
                   ids := int_incr (ids srv), num_clients := num_clients srv + 1\<rparr>)
        (put_client p \<lparr>id' = ids srv, slot = num_clients srv, server = self\<rparr> s)"
    using srv by (simp add: registry_insert_def put_server_def put_client_def)
  from res show ?thesis
    using lt pn acc b
    apply (simp add: onconnection_def bindE_CHECK_Inr Let_def g as bindE_simps inc
        put_emit emit_emit CHECK_Inr bindE_Inr_iff ri)
    apply (simp add: put_client_def put_server_def client_overwritten)
    apply blast
    done
qed

lemma entry_in_heap:
  assumes "registry_core s self" and "x \<in> set (live_entries s self)"
  shows "\<exists>c. heap s x = Some c \<and> server c = self"
proof -
  from assms(2) obtain i where i: "i < length (live_entries s self)" "live_entries s self ! i = x"
    by (auto simp: in_set_conv_nth)
  from registry_core_nth [OF assms(1) i(1)] i(2) show ?thesis
    by (auto simp: entry_ok_def split: option.splits)
qed

lemma ids_recent_iff:
  "ids_recent s self k \<longleftrightarrow>
     (\<exists>srv. servers s self = Some srv \<and>
        (\<forall>x \<in> set (live_entries s self). \<exists>c. heap s x = Some c \<and>
           id_age (ids srv) (id' c) < int k))"
  by (auto simp: ids_recent_def list_all_iff split: option.splits)

lemma frame_cong:
  assumes "servers a = servers b" and "heap a = heap b"
  shows "live_entries a self = live_entries b self"
    and "registry_core a self = registry_core b self"
    and "ids_tracked a self k = ids_tracked b self k"
    and "id_of a = id_of b"
proof -
  show l: "live_entries a self = live_entries b self"
    using assms by (simp add: live_entries_def)
  have e: "entry_ok a self = entry_ok b self"
    using assms by (simp add: entry_ok_def fun_eq_iff)
  show i: "id_of a = id_of b"
    using assms by (simp add: id_of_def fun_eq_iff)
  show "registry_core a self = registry_core b self"
    using assms by (simp add: registry_core_def l e cong: option.case_cong)
  have "ids_recent a self k = ids_recent b self k"
    using assms by (simp add: ids_recent_def l cong: option.case_cong)
  then show "ids_tracked a self k = ids_tracked b self k"
    by (simp add: ids_tracked_def l i)
qed

lemma wrap_int_mod: "wrap_int y mod 4294967296 = y mod 4294967296"
proof -
  have "((y + 2147483648) mod 4294967296 - 2147483648) mod 4294967296 =
        (y + 2147483648 - 2147483648) mod 4294967296"
    by (rule mod_diff_left_eq)
  then show ?thesis by (simp add: wrap_int_def)
qed

lemma wrap_int_range: "INT_MIN \<le> wrap_int y \<and> wrap_int y \<le> INT_MAX"
proof -
  have "0 \<le> (y + 2147483648) mod 4294967296" "(y + 2147483648) mod 4294967296 < 4294967296"
    by simp_all
  then show ?thesis by (simp add: wrap_int_def INT_MIN_def INT_MAX_def)
qed

lemma id_age_self: "id_age x x = 4294967295"
  by (simp add: id_age_def)

lemma id_age_incr: "id_age (int_incr x) i = (id_age x i + 1) mod 4294967296"
proof -
  have "(wrap_int (x + 1) - (i + 1)) mod 4294967296 =
        (wrap_int (x + 1) mod 4294967296 - (i + 1)) mod 4294967296"
    by (simp add: mod_diff_left_eq)
  also have "\<dots> = ((x + 1) mod 4294967296 - (i + 1)) mod 4294967296"
    by (simp only: wrap_int_mod)
  also have "\<dots> = (x + 1 - (i + 1)) mod 4294967296"
    by (simp add: mod_diff_left_eq)
  also have "\<dots> = ((x - i - 1) + 1) mod 4294967296"
    by (simp add: algebra_simps)
  also have "\<dots> = ((x - i - 1) mod 4294967296 + 1) mod 4294967296"
    by (simp add: mod_add_left_eq)
  finally show ?thesis by (simp add: id_age_def int_incr_def algebra_simps)
qed

lemma registry_insert_ok:
  assumes ok: "registry_core s self" and srv: "servers s self = Some srv"
    and lt: "num_clients srv \<noteq> MAX_CLIENTS" and pn: "p \<noteq> NULL"
    and fresh: "heap s p = None"
  shows "registry_core (registry_insert self p s) self"
    and "live_entries (registry_insert self p s) self = live_entries s self @ [p]"
    and "servers (registry_insert self p s) self =
           Some (srv\<lparr>clients := (clients srv)[nat (num_clients srv) := p],
                     ids := int_incr (ids srv), num_clients := num_clients srv + 1\<rparr>)"
    and "heap (registry_insert self p s) =
           (heap s)(p \<mapsto> \<lparr>id' = ids srv, slot = num_clients srv, server = self\<rparr>)"
    and "p \<notin> set (live_entries s self)"
proof -
  let ?n = "num_clients srv"
  let ?s' = "registry_insert self p s"
  let ?L = "live_entries s self"
  let ?L' = "live_entries ?s' self"
  let ?srv' = "srv\<lparr>clients := (clients srv)[nat ?n := p], ids := int_incr (ids srv),
                   num_clients := ?n + 1\<rparr>"
  note b = registry_core_bounds [OF ok srv]
  note d = registry_core_distinct [OF ok]
  have n5: "?n < 5" using b lt by (simp add: MAX_CLIENTS_def)
  show sv': "servers ?s' self = Some ?srv'"
    using srv by (simp add: registry_insert_def)
  show hp: "heap ?s' = (heap s)(p \<mapsto> \<lparr>id' = ids srv, slot = ?n, server = self\<rparr>)"
    using srv by (simp add: registry_insert_def)
  have lenL: "length ?L = nat ?n" by (rule live_entries_length [OF ok srv])
  show pL: "p \<notin> set ?L"
  proof
    assume "p \<in> set ?L"
    from entry_in_heap [OF ok this] fresh show False by simp
  qed
  have nn: "nat (?n + 1) = Suc (nat ?n)" using b by simp
  have nl: "nat ?n < length ((clients srv)[nat ?n := p])" using b n5 by simp
  show L': "?L' = ?L @ [p]"
    using srv sv' nl b n5
    by (simp add: live_entries_def nn take_Suc_conv_app_nth)
  have ent: "entry_ok ?s' self (i, ?L' ! i)" if i: "i < length ?L'" for i
  proof (cases "i < length ?L")
    case True
    then have "?L' ! i = ?L ! i" "?L ! i \<noteq> p"
      using L' pL by (auto simp: nth_append)
    moreover have "entry_ok s self (i, ?L ! i)" by (rule registry_core_nth [OF ok True])
    ultimately show ?thesis by (simp add: entry_ok_def hp)
  next
    case False
    then have il: "i = length ?L" using i L' by simp
    then have "?L' ! i = p" using L' by simp
    then show ?thesis using il lenL b by (simp add: entry_ok_def hp)
  qed
  show "registry_core ?s' self"
  proof (rule registry_coreI [OF _ sv'])
    show "self \<noteq> NULL" by (rule b)
    show "length (clients ?srv') = 5" using b by simp
    show "0 \<le> num_clients ?srv'" using b by simp
    show "num_clients ?srv' \<le> 5" using n5 by simp
    show "distinct ?L'" using L' d pL by simp
    show "NULL \<notin> set ?L'" using L' d pn by simp
    show "\<And>i. i < length ?L' \<Longrightarrow> entry_ok ?s' self (i, ?L' ! i)" by (rule ent)
  qed
qed

lemma registry_insert_ids:
  assumes ok: "registry_core s self" and srv: "servers s self = Some srv"
    and lt: "num_clients srv \<noteq> MAX_CLIENTS" and pn: "p \<noteq> NULL"
    and fresh: "heap s p = None"
    and idt: "ids_tracked s self k" and k: "int k < 4294967296"
  shows "ids_tracked (registry_insert self p s) self (Suc k)"
proof -
  let ?s' = "registry_insert self p s"
  let ?L = "live_entries s self"
  note ri = registry_insert_ok [OF ok srv lt pn fresh]
  from idt srv have rec: "\<forall>x \<in> set ?L. \<exists>c. heap s x = Some c \<and>
      id_age (ids srv) (id' c) < int k"
    by (auto simp: ids_tracked_def ids_recent_iff)
  from idt have dist: "distinct (map (id_of s) ?L)" by (simp add: ids_tracked_def)
  have old: "\<exists>cx. heap ?s' x = Some cx \<and> heap s x = Some cx \<and> id' cx \<noteq> ids srv \<and>
      id_age (int_incr (ids srv)) (id' cx) < int (Suc k)"
    if x: "x \<in> set ?L" for x
  proof -
    from rec x obtain cx where cx: "heap s x = Some cx"
      "id_age (ids srv) (id' cx) < int k"
      by blast
    have nn: "0 \<le> id_age (ids srv) (id' cx)" by (simp add: id_age_def)
    have xp: "x \<noteq> p" using x ri(5) by auto
    have ne: "id' cx \<noteq> ids srv" using cx(2) k id_age_self [of "ids srv"] by auto
    have "id_age (int_incr (ids srv)) (id' cx) = id_age (ids srv) (id' cx) + 1"
      using cx(2) nn k by (simp add: id_age_incr)
    with cx xp ne show ?thesis by (simp add: ri(4))
  qed
  have new: "heap ?s' p = Some \<lparr>id' = ids srv, slot = num_clients srv, server = self\<rparr>"
    by (simp add: ri(4))
  have agep: "id_age (int_incr (ids srv)) (ids srv) = 0"
    by (simp add: id_age_incr id_age_self)
  have idp: "id_of ?s' p = Some (ids srv)" by (simp add: id_of_def new)
  have ido: "\<forall>x \<in> set ?L. id_of ?s' x = id_of s x \<and> id_of ?s' x \<noteq> Some (ids srv)"
  proof
    fix x assume "x \<in> set ?L"
    from old [OF this] show "id_of ?s' x = id_of s x \<and> id_of ?s' x \<noteq> Some (ids srv)"
      by (auto simp: id_of_def)
  qed
  have m: "map (id_of ?s') ?L = map (id_of s) ?L"
    using ido by simp
  have notin: "Some (ids srv) \<notin> id_of ?s' ` set ?L"
  proof
    assume "Some (ids srv) \<in> id_of ?s' ` set ?L"
    then obtain x where x: "x \<in> set ?L" and e: "Some (ids srv) = id_of ?s' x" ..
    from ido x have "id_of ?s' x = id_of s x \<and> id_of ?s' x \<noteq> Some (ids srv)" by (rule bspec)
    then have "id_of ?s' x \<noteq> Some (ids srv)" ..
    with e show False by simp
  qed
  have A: "distinct (map (id_of ?s') ?L)" by (simp only: m dist)
  have B: "id_of ?s' p \<notin> set (map (id_of ?s') ?L)" by (simp only: set_map idp notin not_False_eq_True)
  have "distinct (map (id_of ?s') ?L @ [id_of ?s' p])"
    using A B by (simp only: distinct_append distinct.simps set_simps) simp
  then have d': "distinct (map (id_of ?s') (live_entries ?s' self))"
    by (simp only: ri(2) map_append list.map)
  have "\<exists>cx. heap ?s' x = Some cx \<and>
      id_age (int_incr (ids srv)) (id' cx) < int (Suc k)"
    if x: "x \<in> set (live_entries ?s' self)" for x
  proof (cases "x = p")
    case True
    then show ?thesis using new agep by simp
  next
    case False
    with x have "x \<in> set ?L" by (simp add: ri(2))
    from old [OF this] show ?thesis by blast
  qed
  then have "ids_recent ?s' self (Suc k)"
    unfolding ids_recent_iff using ri(3) by simp
  with d' show ?thesis by (simp add: ids_tracked_def)
qed

text \<open>When the hook returns and \<open>CHECK\<close> does not end the process, so does \<open>disconnect\<close>.\<close>

lemma disconnect_returns:
  assumes ok: "registry_core s self" and srv: "servers s self = Some srv"
    and live: "p \<in> set (live_entries s self)" and c: "heap s p = Some c"
    and h: "onclient_disconnected hk p (num_clients srv - 1)
              (emit [Call_disconnected p (num_clients srv - 1)] (slot_swap_remove self p s)) = Inr s2"
    and chk: "uv_shutdown_rc e p = 0 \<or> \<not> check_exits e"
  shows "disconnect e hk p s =
           Inr (emit ([Malloc_shutdown_req, Uv_shutdown p]
                      @ check_log (uv_shutdown_rc e p) ''uv_shutdown'') s2)"
  using chk
  by (auto simp: disconnect_live_eq [OF ok srv live c] h bindE_simps CHECK_def check_log_def emit_emit)

subsection \<open>Each step preserves the invariant\<close>

lemma hook_frameD:
  assumes "hook_frame h" and "h s = Inr s'"
  shows "servers s' = servers s" and "heap s' = heap s"
    and "\<exists>es. trace s' = trace s @ es \<and> list_all app_effect es"
  using assms by (auto simp: hook_frame_def)

lemma disconnect_step:
  assumes ok: "registry_core s self" and srv: "servers s self = Some srv"
    and live: "p \<in> set (live_entries s self)" and c: "heap s p = Some c"
    and fr: "hook_frame (onclient_disconnected hk p (num_clients srv - 1))"
    and res: "disconnect e hk p s = Inr s'"
  shows "\<exists>s2 es.
           onclient_disconnected hk p (num_clients srv - 1)
             (emit [Call_disconnected p (num_clients srv - 1)] (slot_swap_remove self p s)) = Inr s2 \<and>
           servers s2 = servers (slot_swap_remove self p s) \<and>
           heap s2 = heap (slot_swap_remove self p s) \<and>
           trace s2 = trace s @ [Call_disconnected p (num_clients srv - 1)] @ es \<and>
           list_all app_effect es \<and>
           s' = emit ([Malloc_shutdown_req, Uv_shutdown p]
                      @ check_log (uv_shutdown_rc e p) ''uv_shutdown'') s2"
proof -
  let ?s1 = "emit [Call_disconnected p (num_clients srv - 1)] (slot_swap_remove self p s)"
  from res disconnect_live_eq [OF ok srv live c, of e hk]
  obtain s2 where h: "onclient_disconnected hk p (num_clients srv - 1) ?s1 = Inr s2"
    and ch: "CHECK e (uv_shutdown_rc e p) ''uv_shutdown''
               (emit [Malloc_shutdown_req, Uv_shutdown p] s2) = Inr s'"
    by (auto simp: bindE_Inr_iff)
  from hook_frameD [OF fr h] obtain es where
    f: "servers s2 = servers ?s1" "heap s2 = heap ?s1" "trace s2 = trace ?s1 @ es"
       "list_all app_effect es"
    by blast
  have tr: "trace ?s1 = trace s @ [Call_disconnected p (num_clients srv - 1)]"
    using slot_swap_remove_fields(4) [OF ok srv live c] by simp
  from ch have "s' = emit ([Malloc_shutdown_req, Uv_shutdown p]
                      @ check_log (uv_shutdown_rc e p) ''uv_shutdown'') s2"
    by (simp add: CHECK_Inr emit_emit)
  with h f tr show ?thesis
    by (intro exI [of _ s2] exI [of _ es]) simp
qed

lemma ids_tracked_subset:
  assumes idt: "ids_tracked s self k"
    and srv: "servers s self = Some srv" and srv': "servers s' self = Some srv'"
    and ids: "ids srv' = ids srv"
    and dist: "distinct (live_entries s' self)"
    and sub: "set (live_entries s' self) \<subseteq> set (live_entries s self)"
    and same: "\<forall>x \<in> set (live_entries s' self). id_of s' x = id_of s x"
  shows "ids_tracked s' self k"
proof -
  from idt have d: "distinct (map (id_of s) (live_entries s self))"
    and r: "ids_recent s self k"
    by (simp_all add: ids_tracked_def)
  from d have "inj_on (id_of s) (set (live_entries s self))" by (simp add: distinct_map)
  then have "inj_on (id_of s) (set (live_entries s' self))" using sub by (rule inj_on_subset)
  then have "inj_on (id_of s') (set (live_entries s' self))"
    using same inj_on_cong [of "set (live_entries s' self)" "id_of s'" "id_of s"] by blast
  then have d': "distinct (map (id_of s') (live_entries s' self))"
    using dist by (simp add: distinct_map)
  from r srv have rec: "\<forall>x \<in> set (live_entries s self). \<exists>c. heap s x = Some c \<and>
      id_age (ids srv) (id' c) < int k"
    by (auto simp: ids_recent_iff)
  have "\<exists>c. heap s' x = Some c \<and>
      id_age (ids srv') (id' c) < int k"
    if x: "x \<in> set (live_entries s' self)" for x
  proof -
    from x sub rec obtain c where c: "heap s x = Some c"
      "id_age (ids srv) (id' c) < int k"
      by blast
    from same x have "id_of s' x = id_of s x" by blast
    with c(1) obtain c' where "heap s' x = Some c'" "id' c' = id' c"
      by (auto simp: id_of_def)
    with c(2) ids show ?thesis by simp
  qed
  then have "ids_recent s' self k"
    unfolding ids_recent_iff using srv' by simp
  with d' show ?thesis by (simp add: ids_tracked_def)
qed

lemma disconnect_preserves:
  assumes ok: "registry_core s self"
    and live: "p \<in> set (live_entries s self)"
    and fr: "hooks_ok hk"
    and res: "disconnect e hk p s = Inr s'"
  shows "registry_core s' self"
    and "set (live_entries s' self) = set (live_entries s self) - {p}"
    and "\<exists>srv srv'. servers s self = Some srv \<and> servers s' self = Some srv' \<and> ids srv' = ids srv"
    and "id_of s' = id_of s"
proof -
  from ok obtain srv where srv: "servers s self = Some srv"
    by (auto simp: registry_core_def split: option.splits)
  from entry_in_heap [OF ok live] obtain c where c: "heap s p = Some c" by blast
  from fr have fr': "hook_frame (onclient_disconnected hk p (num_clients srv - 1))"
    by (simp add: hooks_ok_def)
  let ?r = "slot_swap_remove self p s"
  from disconnect_step [OF ok srv live c fr' res] obtain s2 where
    s2: "servers s2 = servers ?r" "heap s2 = heap ?r" and
    s': "s' = emit ([Malloc_shutdown_req, Uv_shutdown p]
                      @ check_log (uv_shutdown_rc e p) ''uv_shutdown'') s2"
    by blast
  have sv: "servers s' = servers ?r" and hp: "heap s' = heap ?r"
    using s2 s' by simp_all
  note fc = frame_cong [OF sv hp]
  note rm = slot_swap_remove_ok [OF ok srv live c]
  note fl = slot_swap_remove_fields [OF ok srv live c]
  show "registry_core s' self" using rm(1) fc(2) by simp
  show "set (live_entries s' self) = set (live_entries s self) - {p}"
    using rm(2) fc(1) by simp
  have svr: "servers ?r self = Some (srv\<lparr>clients :=
              (if slot c < num_clients srv - 1
               then (clients srv)[nat (slot c) := clients srv ! nat (num_clients srv - 1)]
               else clients srv),
              num_clients := num_clients srv - 1\<rparr>)"
    by (simp add: fl(1))
  then show "\<exists>srv srv'. servers s self = Some srv \<and> servers s' self = Some srv' \<and> ids srv' = ids srv"
    using srv sv by simp
  show "id_of s' = id_of s" using rm(3) fc(4) by simp
qed

lemma onconnection_preserves:
  assumes ok: "registry_core s self"
    and srv: "servers s self = Some srv"
    and fresh: "heap s p = None" and acc: "uv_accept_rc e p = 0"
    and fr: "hooks_ok hk"
    and res: "onconnection e hk self status p junk s = Inr s'"
  shows "registry_core s' self"
    and "live_entries s' self =
           (if num_clients srv = MAX_CLIENTS then live_entries s self else live_entries s self @ [p])"
    and "if num_clients srv = MAX_CLIENTS then servers s' = servers s \<and> heap s' = heap s
         else p \<noteq> NULL \<and> servers s' = servers (registry_insert self p s) \<and>
              heap s' = heap (registry_insert self p s)"
proof -
  note b = registry_core_bounds [OF ok srv]
  have "registry_core s' self \<and>
      live_entries s' self =
           (if num_clients srv = MAX_CLIENTS then live_entries s self else live_entries s self @ [p]) \<and>
      (if num_clients srv = MAX_CLIENTS then servers s' = servers s \<and> heap s' = heap s
         else p \<noteq> NULL \<and> servers s' = servers (registry_insert self p s) \<and>
              heap s' = heap (registry_insert self p s))"
  proof (cases "num_clients srv = MAX_CLIENTS")
    case True
    from res onconnection_full [OF b(1) srv True, of e hk status p junk]
    have sv: "servers s' = servers s" and hp: "heap s' = heap s"
      by (auto split: if_splits)
    note fc = frame_cong [OF sv hp]
    show ?thesis
      using True ok sv hp by (simp add: fc)
  next
    case False
    have pn: "p \<noteq> NULL"
    proof
      assume "p = NULL"
      with res False b srv show False
        by (simp add: onconnection_def bindE_CHECK_Inr Let_def get_server_def bindE_simps)
    qed
    let ?r = "registry_insert self p s"
    from fr have fr': "hook_frame (onclient_connected hk p (num_clients srv + 1))"
      by (simp add: hooks_ok_def)
    from onconnection_accept [OF ok srv False pn acc res] obtain s10 where
      h: "onclient_connected hk p (num_clients srv + 1)
             (emit (check_log status ''onconnection''
                    @ [Log_info ''Accepting Connection'' [], Malloc_client p, Uv_tcp_init p]
                    @ check_log (uv_tcp_init_rc e p) ''uv_tcp_init''
                    @ [Uv_accept self p, Call_connected p (num_clients srv + 1)]) ?r) = Inr s10"
      and s': "s' = emit ([Uv_read_start p] @ check_log (uv_read_start_rc e p) ''uv_read_start'') s10"
      by blast
    from hook_frameD(1,2) [OF fr' h] s'
    have sv: "servers s' = servers ?r" and hp: "heap s' = heap ?r"
      by simp_all
    note fc = frame_cong [OF sv hp]
    note ri = registry_insert_ok [OF ok srv False pn fresh]
    show ?thesis
      using False pn ri(1,2) sv hp by (simp add: fc)
  qed
  then show "registry_core s' self"
    and "live_entries s' self =
           (if num_clients srv = MAX_CLIENTS then live_entries s self else live_entries s self @ [p])"
    and "if num_clients srv = MAX_CLIENTS then servers s' = servers s \<and> heap s' = heap s
         else p \<noteq> NULL \<and> servers s' = servers (registry_insert self p s) \<and>
              heap s' = heap (registry_insert self p s)"
    by blast+
qed

lemma close_cb_preserves:
  assumes ok: "registry_core s self"
    and nl: "p \<notin> set (live_entries s self)"
    and res: "close_cb p s = Inr s'"
  shows "registry_core s' self"
    and "live_entries s' self = live_entries s self"
    and "servers s' = servers s"
    and "\<forall>x \<in> set (live_entries s self). id_of s' x = id_of s x"
proof -
  from res have sv: "servers s' = servers s" and
    hp: "heap s' = heap s \<or> heap s' = (heap s)(p := None)"
    by (auto simp: close_cb_def split: if_splits)
  show "servers s' = servers s" by (rule sv)
  show L: "live_entries s' self = live_entries s self"
    using sv by (simp add: live_entries_def)
  have same: "\<And>x. x \<in> set (live_entries s self) \<Longrightarrow> heap s' x = heap s x"
    using hp nl by auto
  then show "\<forall>x \<in> set (live_entries s self). id_of s' x = id_of s x"
    by (simp add: id_of_def)
  from ok obtain srv where srv: "servers s self = Some srv"
    by (auto simp: registry_core_def split: option.splits)
  note b = registry_core_bounds [OF ok srv]
  note d = registry_core_distinct [OF ok]
  show "registry_core s' self"
  proof (rule registry_coreI [of self s' srv])
    show "self \<noteq> NULL" "length (clients srv) = 5" "0 \<le> num_clients srv" "num_clients srv \<le> 5"
      by (rule b)+
    show "servers s' self = Some srv" using sv srv by simp
    show "distinct (live_entries s' self)" "NULL \<notin> set (live_entries s' self)"
      using d L by simp_all
    show "entry_ok s' self (i, live_entries s' self ! i)" if "i < length (live_entries s' self)" for i
      using registry_core_nth [OF ok, of i] that same [of "live_entries s self ! i"]
      by (simp add: L entry_ok_def)
  qed
qed

subsection \<open>Runs\<close>

lemma tracks_length:
  assumes "tracks s self L" and "servers s self = Some srv"
  shows "int (length L) = num_clients srv"
proof -
  from assms have ok: "registry_core s self" by (simp add: tracks_def)
  have "length L = card (set L)" using assms by (simp add: tracks_def distinct_card)
  also have "\<dots> = card (set (live_entries s self))" using assms by (simp add: tracks_def)
  also have "\<dots> = length (live_entries s self)"
    using registry_core_distinct [OF ok] by (simp add: distinct_card)
  also have "\<dots> = nat (num_clients srv)" by (rule live_entries_length [OF ok assms(2)])
  finally show ?thesis using registry_core_bounds [OF ok assms(2)] by simp
qed

text \<open>
  One event: the live set follows the specification's; the invariant on the ids is
  kept as long as the counter has not gone once around; an event that takes a
  connection in gives it the current value of \<open>ids\<close> and increments the counter,
  and no other event writes it.
\<close>

lemma step_tracks:
  assumes hk: "hooks_ok hk" and t: "tracks s self L" and srv: "servers s self = Some srv"
    and adm: "admissible e L ev s" and st: "step e hk self ev s = Inr s1"
  shows "tracks s1 self (live_step ev L)"
    and "ids_tracked s self k \<Longrightarrow> int k + int (accepts ev L) \<le> 4294967296 \<Longrightarrow>
           ids_tracked s1 self (k + accepts ev L)"
    and "\<exists>srv1. servers s1 self = Some srv1 \<and>
           (accepts ev L = 0 \<and> new_id self ev s s1 = [] \<and> ids srv1 = ids srv \<or>
            accepts ev L = 1 \<and> new_id self ev s s1 = [ids srv] \<and> ids srv1 = int_incr (ids srv))"
proof -
  from t have ok: "registry_core s self"
    and se: "set (live_entries s self) = set L" and dL: "distinct L"
    by (simp_all add: tracks_def)
  note len = tracks_length [OF t srv]
  note b = registry_core_bounds [OF ok srv]
  have "tracks s1 self (live_step ev L) \<and>
     (ids_tracked s self k \<longrightarrow> int k + int (accepts ev L) \<le> 4294967296 \<longrightarrow>
           ids_tracked s1 self (k + accepts ev L)) \<and>
     (\<exists>srv1. servers s1 self = Some srv1 \<and>
           (accepts ev L = 0 \<and> new_id self ev s s1 = [] \<and> ids srv1 = ids srv \<or>
            accepts ev L = 1 \<and> new_id self ev s s1 = [ids srv] \<and> ids srv1 = int_incr (ids srv)))"
  proof (cases ev)
    case (Connection status p junk)
    with adm st have fresh: "heap s p = None" and acc: "uv_accept_rc e p = 0"
      and res: "onconnection e hk self status p junk s = Inr s1"
      by simp_all
    note pr = onconnection_preserves [OF ok srv fresh acc hk res]
    show ?thesis
    proof (cases "num_clients srv = MAX_CLIENTS")
      case True
      then have a0: "accepts ev L = 0"
        using len Connection by simp
      from True pr(3) have sv: "servers s1 = servers s" and hp: "heap s1 = heap s" by simp_all
      have "tracks s1 self (live_step ev L)"
        using True pr(1,2) se dL len Connection by (simp add: tracks_def)
      moreover have "new_id self ev s s1 = []"
        using True pr(2) Connection by (simp add: new_id_def)
      moreover have "ids_tracked s1 self k = ids_tracked s self k"
        by (rule frame_cong(3) [OF sv hp])
      ultimately show ?thesis using srv sv a0 by simp
    next
      case False
      then have lt: "int (length L) < MAX_CLIENTS"
        using len b by (simp add: MAX_CLIENTS_def)
      then have a1: "accepts ev L = 1" using Connection by simp
      from False pr(3) have pn: "p \<noteq> NULL"
        and sv: "servers s1 = servers (registry_insert self p s)"
        and hp: "heap s1 = heap (registry_insert self p s)"
        by simp_all
      note ri = registry_insert_ok [OF ok srv False pn fresh]
      have "tracks s1 self (live_step ev L)"
        using False lt pr(1,2) se dL ri(5) Connection by (simp add: tracks_def)
      moreover have "new_id self ev s s1 = [ids srv]"
        using False pr(2) ri(5) Connection by (simp add: new_id_def hp ri(4))
      moreover have "ids_tracked s1 self (Suc k)"
        if "ids_tracked s self k" "int k + 1 \<le> 4294967296"
      proof -
        from that(2) have "int k < 4294967296" by simp
        from registry_insert_ids [OF ok srv False pn fresh that(1) this] frame_cong(3) [OF sv hp]
        show ?thesis by simp
      qed
      ultimately show ?thesis using sv ri(3) a1 by simp
    qed
  next
    case (Disconnect p)
    with adm st se have live: "p \<in> set (live_entries s self)"
      and res: "disconnect e hk p s = Inr s1"
      by simp_all
    note pr = disconnect_preserves [OF ok live hk res]
    from pr(3) srv obtain srv1 where srv1: "servers s1 self = Some srv1" "ids srv1 = ids srv"
      by auto
    have "tracks s1 self (live_step ev L)"
      using pr(1,2) se dL Disconnect by (simp add: tracks_def distinct_removeAll)
    moreover have "new_id self ev s s1 = []" using Disconnect by (simp add: new_id_def)
    moreover have "ids_tracked s1 self k" if "ids_tracked s self k"
      using ids_tracked_subset [OF that srv srv1 registry_core_distinct [OF pr(1), THEN conjunct1]]
        pr(2,4) by auto
    ultimately show ?thesis using srv1 Disconnect by simp
  next
    case (Closed p)
    with adm st se have nl: "p \<notin> set (live_entries s self)"
      and res: "close_cb p s = Inr s1"
      by simp_all
    note pr = close_cb_preserves [OF ok nl res]
    have srv1: "servers s1 self = Some srv" using pr(3) srv by simp
    have "tracks s1 self (live_step ev L)"
      using pr(1,2) se dL Closed by (simp add: tracks_def)
    moreover have "new_id self ev s s1 = []" using Closed by (simp add: new_id_def)
    moreover have "ids_tracked s1 self k" if "ids_tracked s self k"
      using ids_tracked_subset [OF that srv srv1 refl registry_core_distinct [OF pr(1), THEN conjunct1]]
        pr(2,4) by auto
    ultimately show ?thesis using srv1 Closed by simp
  qed
  then show "tracks s1 self (live_step ev L)"
    and "ids_tracked s self k \<Longrightarrow> int k + int (accepts ev L) \<le> 4294967296 \<Longrightarrow>
           ids_tracked s1 self (k + accepts ev L)"
    and "\<exists>srv1. servers s1 self = Some srv1 \<and>
           (accepts ev L = 0 \<and> new_id self ev s s1 = [] \<and> ids srv1 = ids srv \<or>
            accepts ev L = 1 \<and> new_id self ev s s1 = [ids srv] \<and> ids srv1 = int_incr (ids srv))"
    by blast+
qed

lemma tracks_server: "tracks s self L \<Longrightarrow> \<exists>srv. servers s self = Some srv"
  by (auto simp: tracks_def registry_core_def split: option.splits)

lemma run_tracks:
  assumes "hooks_ok hk"
  shows "tracks s self L \<Longrightarrow> admissible_run e hk self evs L s \<Longrightarrow>
         run e hk self evs s = Inr s' \<Longrightarrow> tracks s' self (live_after evs L)"
proof (induction evs arbitrary: s L)
  case Nil
  then show ?case by simp
next
  case (Cons ev evs)
  from Cons.prems(3) obtain s1 where st: "step e hk self ev s = Inr s1"
    and rest: "run e hk self evs s1 = Inr s'"
    by (auto simp: bindE_Inr_iff)
  from tracks_server [OF Cons.prems(1)] obtain srv where srv: "servers s self = Some srv" ..
  from Cons.prems(2) st have adm: "admissible e L ev s"
    and adr: "admissible_run e hk self evs (live_step ev L) s1"
    by simp_all
  from step_tracks(1) [OF assms Cons.prems(1) srv adm st]
  have "tracks s1 self (live_step ev L)" .
  from Cons.IH [OF this adr rest] show ?case by simp
qed

lemma run_ids_tracked:
  assumes "hooks_ok hk"
  shows "tracks s self L \<Longrightarrow> ids_tracked s self k \<Longrightarrow>
         admissible_run e hk self evs L s \<Longrightarrow> run e hk self evs s = Inr s' \<Longrightarrow>
         int k + int (accept_count evs L) \<le> 4294967296 \<Longrightarrow>
         ids_tracked s' self (k + accept_count evs L)"
proof (induction evs arbitrary: s L k)
  case Nil
  then show ?case by simp
next
  case (Cons ev evs)
  from Cons.prems(4) obtain s1 where st: "step e hk self ev s = Inr s1"
    and rest: "run e hk self evs s1 = Inr s'"
    by (auto simp: bindE_Inr_iff)
  from tracks_server [OF Cons.prems(1)] obtain srv where srv: "servers s self = Some srv" ..
  from Cons.prems(3) st have adm: "admissible e L ev s"
    and adr: "admissible_run e hk self evs (live_step ev L) s1"
    by simp_all
  note stp = step_tracks [OF assms Cons.prems(1) srv adm st]
  from Cons.prems(5) have k1: "int k + int (accepts ev L) \<le> 4294967296"
    and k2: "int (k + accepts ev L) + int (accept_count evs (live_step ev L)) \<le> 4294967296"
    by simp_all
  from Cons.IH [OF stp(1) stp(2) [OF Cons.prems(2) k1] adr rest k2]
  show ?case by (simp add: add.assoc)
qed

lemma wrap_int_add_left: "wrap_int (wrap_int a + b) = wrap_int (a + b)"
proof -
  have "(wrap_int a + (b + 2147483648)) mod 4294967296 =
        (wrap_int a mod 4294967296 + (b + 2147483648)) mod 4294967296"
    by (simp add: mod_add_left_eq)
  also have "\<dots> = (a mod 4294967296 + (b + 2147483648)) mod 4294967296"
    by (simp only: wrap_int_mod)
  also have "\<dots> = (a + (b + 2147483648)) mod 4294967296"
    by (simp add: mod_add_left_eq)
  finally show ?thesis by (simp add: wrap_int_def add.assoc)
qed

text \<open>The ids handed out are consecutive modulo \<open>2 ^ 32\<close> from the counter's value.\<close>

lemma accepted_ids_exact:
  assumes "hooks_ok hk"
  shows "tracks s self L \<Longrightarrow> servers s self = Some srv \<Longrightarrow> wrap_int (ids srv) = ids srv \<Longrightarrow>
         admissible_run e hk self evs L s \<Longrightarrow>
         accepted_ids e hk self evs s =
           map (\<lambda>j. wrap_int (ids srv + int j)) [0..<length (accepted_ids e hk self evs s)]"
proof (induction evs arbitrary: s L srv)
  case Nil
  then show ?case by simp
next
  case (Cons ev evs)
  show ?case
  proof (cases "step e hk self ev s")
    case (Inl f)
    then show ?thesis by simp
  next
    case (Inr s1)
    from Cons.prems(4) Inr have adm: "admissible e L ev s"
      and adr: "admissible_run e hk self evs (live_step ev L) s1"
      by simp_all
    note stp = step_tracks [OF assms Cons.prems(1,2) adm Inr]
    from stp(3) obtain srv1 where srv1: "servers s1 self = Some srv1" and
      alt: "new_id self ev s s1 = [] \<and> ids srv1 = ids srv \<or>
            new_id self ev s s1 = [ids srv] \<and> ids srv1 = int_incr (ids srv)"
      by blast
    let ?rest = "accepted_ids e hk self evs s1"
    from alt show ?thesis
    proof
      assume a: "new_id self ev s s1 = [] \<and> ids srv1 = ids srv"
      with Cons.prems(3) have "wrap_int (ids srv1) = ids srv1" by simp
      from Cons.IH [OF stp(1) srv1 this adr] a Inr show ?thesis by simp
    next
      assume a: "new_id self ev s s1 = [ids srv] \<and> ids srv1 = int_incr (ids srv)"
      then have w: "wrap_int (ids srv1) = ids srv1"
        using wrap_int_range [of "ids srv + 1"] by (simp add: int_incr_def wrap_int_id)
      from Cons.IH [OF stp(1) srv1 w adr] a
      have "?rest = map (\<lambda>j. wrap_int (ids srv + int (Suc j))) [0..<length ?rest]"
        by (simp add: int_incr_def wrap_int_add_left add.assoc)
      then have "ids srv # ?rest =
          map (\<lambda>j. wrap_int (ids srv + int j)) [0..<Suc (length ?rest)]"
        using Cons.prems(3) by (simp only: map_upt_Suc) simp
      with a Inr show ?thesis by simp
    qed
  qed
qed

lemma run_append:
  "run e hk self (xs @ ys) s = bindE (run e hk self xs s) (run e hk self ys)"
  by (induction xs arbitrary: s) (simp_all add: bindE_def split: sum.splits)

lemma admissible_run_prefix:
  "admissible_run e hk self (xs @ ys) L s \<Longrightarrow> admissible_run e hk self xs L s"
  by (induction xs arbitrary: s L) (auto split: sum.splits)

lemma run_prefix:
  assumes "run e hk self evs s = Inr s'"
  shows "\<exists>sk. run e hk self (take k evs) s = Inr sk"
proof -
  have "run e hk self (take k evs @ drop k evs) s = Inr s'" using assms by simp
  then show ?thesis unfolding run_append by (auto simp: bindE_Inr_iff)
qed

subsection \<open>A fresh server; the application's hooks\<close>

lemma luv_server_create_fresh:
  assumes cr: "luv_server_create e p0 junk0 h pt s0 = Inr (self, s1)"
    and len: "length (clients junk0) = nat MAX_CLIENTS"
  shows "tracks s1 self []"
    and "ids_tracked s1 self 0"
    and "\<exists>srv. servers s1 self = Some srv \<and> ids srv = ids junk0"
proof -
  from cr have pn: "p0 \<noteq> NULL" and self: "self = p0"
    and sv: "servers s1 = (servers s0)(p0 \<mapsto> junk0\<lparr>host := h, port := pt, num_clients := 0\<rparr>)"
    by (auto simp: luv_server_create_def bindE_CHECK_Inr Let_def put_emit split: if_splits)
  then have L: "live_entries s1 self = []"
    by (simp add: live_entries_def)
  have "registry_core s1 self"
    using pn self sv len L by (simp add: registry_core_def MAX_CLIENTS_def)
  then show "tracks s1 self []" using L by (simp add: tracks_def)
  show "ids_tracked s1 self 0"
    using self sv L by (simp add: ids_tracked_def ids_recent_def)
  show "\<exists>srv. servers s1 self = Some srv \<and> ids srv = ids junk0"
    using self sv by simp
qed

lemma luv_server_broadcast_frame:
  assumes "luv_server_broadcast e self msg s = Inr s'"
  shows "servers s' = servers s \<and> heap s' = heap s \<and>
         (\<exists>es. trace s' = trace s @ es \<and> list_all app_effect es)"
  using broadcast_loop_frame [of e self msg 0 s s'] assms
  by (auto simp: luv_server_broadcast_def)

lemma hooks_ok_app: "hooks_ok (app_hooks e)"
proof -
  have 1: "hook_frame (app_onclient_connected e p n)" for p n
    unfolding hook_frame_def
  proof (intro allI impI)
    fix s s' assume a: "app_onclient_connected e p n s = Inr s'"
    let ?s1 = "emit [Log_info ''New player, %d total now.'' [n]] s"
    from a obtain c :: luv_client_t where "luv_server_broadcast e (server c) ''Welcome player\<newline>'' ?s1 = Inr s'"
      by (auto simp: app_onclient_connected_def Let_def bindE_Inr_iff)
    from luv_server_broadcast_frame [OF this] obtain es where
      "servers s' = servers s" "heap s' = heap s" "trace s' = trace s @ ([Log_info ''New player, %d total now.'' [n]] @ es)"
      "list_all app_effect es"
      by auto
    then show "servers s' = servers s \<and> heap s' = heap s \<and>
         (\<exists>es. trace s' = trace s @ es \<and> list_all app_effect es)"
      by (intro conjI exI [of _ "[Log_info ''New player, %d total now.'' [n]] @ es"]) simp_all
  qed
  have 2: "hook_frame (app_onclient_disconnected e p n)" for p n
    unfolding hook_frame_def
  proof (intro allI impI)
    fix s s' assume a: "app_onclient_disconnected e p n s = Inr s'"
    from a obtain c c1 :: luv_client_t where
      "luv_server_broadcast e (server c1) ''Player quit :(\<newline>''
         (emit [Log_info ''Player %d quit, %d total now.'' [id' c, n]] s) = Inr s'"
      by (auto simp: app_onclient_disconnected_def Let_def bindE_Inr_iff)
    from luv_server_broadcast_frame [OF this] obtain es where
      "servers s' = servers s" "heap s' = heap s"
      "trace s' = trace s @ ([Log_info ''Player %d quit, %d total now.'' [id' c, n]] @ es)"
      "list_all app_effect es"
      by auto
    then show "servers s' = servers s \<and> heap s' = heap s \<and>
         (\<exists>es. trace s' = trace s @ es \<and> list_all app_effect es)"
      by (intro conjI exI [of _ "[Log_info ''Player %d quit, %d total now.'' [id' c, n]] @ es"]) simp_all
  qed
  show ?thesis by (simp add: hooks_ok_def 1 2 app_hooks_def)
qed

subsection \<open>Counting effects\<close>

lemma warned_append: "warned (xs @ ys) = warned xs @ warned ys"
  by (induction xs rule: warned.induct) simp_all

lemma disconnect_calls_append:
  "disconnect_calls p (xs @ ys) = disconnect_calls p xs + disconnect_calls p ys"
  by (induction p xs rule: disconnect_calls.induct) simp_all

lemma disconnect_calls_app:
  "list_all app_effect es \<Longrightarrow> disconnect_calls p es = 0"
  by (induction p es rule: disconnect_calls.induct) simp_all

lemma new_effects_emit [simp]: "new_effects s (emit es s) = es"
  by (simp add: new_effects_def)

lemma writes_of_broadcast_effects:
  "writes_of (concat (map (broadcast_effects e msg) xs)) =
     map (\<lambda>ip. (snd ip, msg)) (filter (\<lambda>ip. snd ip \<noteq> NULL) xs)"
  by (induction xs) (simp_all add: broadcast_effects_def writes_of_append)

lemma warned_broadcast_effects:
  "warned (concat (map (broadcast_effects e msg) xs)) =
     map (\<lambda>ip. int (fst ip)) (filter (\<lambda>ip. snd ip = NULL) xs)"
  by (induction xs) (simp_all add: broadcast_effects_def warned_append)

lemma filter_snd_enumerate:
  "map snd (filter (\<lambda>ip. P (snd ip)) (enumerate n xs)) = filter P xs"
  by (induction xs arbitrary: n) simp_all


subsection \<open>Evaluating the concrete configurations\<close>

lemmas eval_defs = onconnection_def disconnect_def move_last_def bindE_def CHECK_def emit_def
  get_server_def get_client_def put_client_def put_server_def array_set_def array_get_def
  in_bounds_def int_incr_def int_decr_def wrap_int_def Let_def env0_def app_hooks_def
  app_onclient_connected_def app_onclient_disconnected_def luv_server_broadcast_def
  broadcast_loop.simps NULL_def MAX_CLIENTS_def junk_cl_def

lemma create_example: "luv_server_create env0 100 junk_srv ''0.0.0.0'' 7000 s_init = Inr (100, s_created)"
  by (simp add: luv_server_create_def env0_def junk_srv_def s_init_def s_created_def NULL_def
      bindE_def CHECK_def emit_def put_server_def Let_def)

lemma run_example_returns: "\<not> isl (run env0 (app_hooks env0) 100 evs0 s_created)"
  by (simp add: eval_defs evs0_def s_created_def)

lemma run_example_admissible: "admissible_run env0 (app_hooks env0) 100 evs0 [] s_created"
  by (simp add: eval_defs evs0_def s_created_def)

lemma run_example_ids: "accepted_ids env0 (app_hooks env0) 100 evs0 s_created = [40, 41, 42]"
  by (simp add: eval_defs evs0_def s_created_def new_id_def live_entries_def)

lemma not_isl_Inr: "\<not> isl r \<Longrightarrow> \<exists>x. r = Inr x"
  by (cases r) simp_all

lemma registry_ok_st2: "registry_ok st2 100"
  by (simp add: registry_ok_def st2_def live_entries_def entry_ok_def id_of_def NULL_def
      MAX_CLIENTS_def enumerate_eq_zip)

lemma disconnect_example_returns: "\<not> isl (disconnect env0 (app_hooks env0) 201 st2)"
  by (simp add: eval_defs st2_def)

subsection \<open>A client that stays while the counter goes round\<close>

lemma first_wrap:
  "\<exists>tr. run env0 (app_hooks env0) 100 [Connection 0 201 junk_cl] s_created = Inr (wrap_st 0 41 tr)"
  by (simp add: eval_defs s_created_def wrap_st_def)

lemma cycle_wrap:
  "\<exists>tr'. run env0 (app_hooks env0) 100 cycle202 (wrap_st x i tr) =
            Inr (wrap_st 202 (int_incr i) tr')"
  by (simp add: eval_defs cycle202_def wrap_st_def close_cb_def)

lemma cycle_wrap_adm:
  "admissible_run env0 (app_hooks env0) 100 cycle202 [201] (wrap_st x i tr)"
  by (simp add: eval_defs cycle202_def wrap_st_def close_cb_def)

lemma admissible_run_append:
  assumes "admissible_run e hk self xs L s"
    and "run e hk self xs s = Inr s1"
    and "admissible_run e hk self ys (live_after xs L) s1"
  shows "admissible_run e hk self (xs @ ys) L s"
  using assms
proof (induction xs arbitrary: s L)
  case Nil
  then show ?case by simp
next
  case (Cons ev xs)
  from Cons.prems(2) obtain s0 where s0: "step e hk self ev s = Inr s0"
    and r: "run e hk self xs s0 = Inr s1"
    by (cases "step e hk self ev s") (simp_all add: bindE_simps)
  from Cons.prems(1) s0 have a: "admissible e L ev s"
    and b: "admissible_run e hk self xs (live_step ev L) s0"
    by simp_all
  from Cons.prems(3) have c: "admissible_run e hk self ys (live_after xs (live_step ev L)) s1"
    by simp
  from Cons.IH [OF b r c] a s0 show ?case by simp
qed

lemma live_after_cycle: "live_after cycle202 [201] = [201]"
  by (simp add: cycle202_def MAX_CLIENTS_def)

lemma live_after_cycles: "live_after (concat (replicate n cycle202)) [201] = [201]"
proof (induction n)
  case 0
  show ?case by simp
next
  case (Suc n)
  have "live_after (xs @ ys) L = live_after ys (live_after xs L)" for xs ys L
    by (induction xs arbitrary: L) simp_all
  then show ?case using Suc by (simp add: live_after_cycle)
qed

lemma cycles_wrap:
  "\<exists>tr'. run env0 (app_hooks env0) 100 (concat (replicate (Suc n) cycle202)) (wrap_st x i tr) =
            Inr (wrap_st 202 (wrap_int (i + 1 + int n)) tr') \<and>
         admissible_run env0 (app_hooks env0) 100 (concat (replicate (Suc n) cycle202)) [201]
           (wrap_st x i tr)"
proof (induction n arbitrary: x i tr)
  case 0
  from cycle_wrap [of x i tr] cycle_wrap_adm [of x i tr] show ?case
    by (simp add: int_incr_def)
next
  case (Suc n)
  let ?rest = "concat (replicate (Suc n) cycle202)"
  from cycle_wrap [of x i tr] obtain tr1 where
    c: "run env0 (app_hooks env0) 100 cycle202 (wrap_st x i tr) = Inr (wrap_st 202 (int_incr i) tr1)" ..
  from Suc.IH [of 202 "int_incr i" tr1] obtain tr' where
    r: "run env0 (app_hooks env0) 100 ?rest (wrap_st 202 (int_incr i) tr1) =
          Inr (wrap_st 202 (wrap_int (int_incr i + 1 + int n)) tr')" and
    a: "admissible_run env0 (app_hooks env0) 100 ?rest [201] (wrap_st 202 (int_incr i) tr1)"
    by blast
  have w: "wrap_int (int_incr i + 1 + int n) = wrap_int (i + 1 + int (Suc n))"
    using wrap_int_add_left [of "i + 1" "1 + int n"] by (simp add: int_incr_def add.assoc)
  have e: "concat (replicate (Suc (Suc n)) cycle202) = cycle202 @ ?rest" by simp
  have "run env0 (app_hooks env0) 100 (cycle202 @ ?rest) (wrap_st x i tr) =
          Inr (wrap_st 202 (wrap_int (i + 1 + int (Suc n))) tr')"
    by (simp only: run_append c bindE_simps r w)
  moreover have "admissible_run env0 (app_hooks env0) 100 (cycle202 @ ?rest) [201] (wrap_st x i tr)"
  proof (rule admissible_run_append [OF cycle_wrap_adm c])
    show "admissible_run env0 (app_hooks env0) 100 ?rest (live_after cycle202 [201])
            (wrap_st 202 (int_incr i) tr1)"
      using a by (simp only: live_after_cycle)
  qed
  ultimately show ?case unfolding e by blast
qed

lemma last_wrap:
  "\<exists>tr'. run env0 (app_hooks env0) 100 [Connection 0 202 junk_cl] (wrap_st 202 40 tr) =
      Inr \<lparr>servers = [100 \<mapsto> \<lparr>host = ''0.0.0.0'', port = 7000, clients = [201, 202, 13, 13, 2],
                         num_clients = 2, ids = 41\<rparr>],
           heap = [201 \<mapsto> \<lparr>id' = 40, slot = 0, server = 100\<rparr>,
                   202 \<mapsto> \<lparr>id' = 40, slot = 1, server = 100\<rparr>],
           bufs = Map.empty, trace = tr'\<rparr>"
  by (simp add: eval_defs wrap_st_def)

lemma last_wrap_adm:
  "admissible_run env0 (app_hooks env0) 100 [Connection 0 202 junk_cl] [201] (wrap_st 202 40 tr)"
  by (simp add: eval_defs wrap_st_def)

lemma first_wrap_adm:
  "admissible_run env0 (app_hooks env0) 100 [Connection 0 201 junk_cl] [] s_created"
  by (simp add: eval_defs s_created_def)

lemma run_wrap:
  "\<exists>tr. run env0 (app_hooks env0) 100 evs_wrap s_created =
      Inr \<lparr>servers = [100 \<mapsto> \<lparr>host = ''0.0.0.0'', port = 7000, clients = [201, 202, 13, 13, 2],
                         num_clients = 2, ids = 41\<rparr>],
           heap = [201 \<mapsto> \<lparr>id' = 40, slot = 0, server = 100\<rparr>,
                   202 \<mapsto> \<lparr>id' = 40, slot = 1, server = 100\<rparr>],
           bufs = Map.empty, trace = tr\<rparr> \<and>
     admissible_run env0 (app_hooks env0) 100 evs_wrap [] s_created"
proof -
  let ?mid = "concat (replicate 4294967295 cycle202)"
  let ?lst = "[Connection 0 202 junk_cl]"
  from first_wrap obtain tr1 where
    1: "run env0 (app_hooks env0) 100 [Connection 0 201 junk_cl] s_created = Inr (wrap_st 0 41 tr1)" ..
  have n: "(4294967295 :: nat) = Suc 4294967294" by simp
  have w: "wrap_int (41 + 1 + int 4294967294) = 40" by (simp add: wrap_int_def)
  from cycles_wrap [of 4294967294 0 41 tr1] obtain tr2 where
    2: "run env0 (app_hooks env0) 100 ?mid (wrap_st 0 41 tr1) = Inr (wrap_st 202 40 tr2)" and
    a2: "admissible_run env0 (app_hooks env0) 100 ?mid [201] (wrap_st 0 41 tr1)"
    unfolding n [symmetric] w by blast
  from last_wrap [of tr2] obtain tr3 where
    3: "run env0 (app_hooks env0) 100 ?lst (wrap_st 202 40 tr2) =
      Inr \<lparr>servers = [100 \<mapsto> \<lparr>host = ''0.0.0.0'', port = 7000, clients = [201, 202, 13, 13, 2],
                         num_clients = 2, ids = 41\<rparr>],
           heap = [201 \<mapsto> \<lparr>id' = 40, slot = 0, server = 100\<rparr>,
                   202 \<mapsto> \<lparr>id' = 40, slot = 1, server = 100\<rparr>],
           bufs = Map.empty, trace = tr3\<rparr>" ..
  have e: "evs_wrap = [Connection 0 201 junk_cl] @ (?mid @ ?lst)" by (simp add: evs_wrap_def)
  have la1: "live_after [Connection 0 201 junk_cl] [] = [201]" by (simp add: MAX_CLIENTS_def)
  have r23: "run env0 (app_hooks env0) 100 (?mid @ ?lst) (wrap_st 0 41 tr1) =
      Inr \<lparr>servers = [100 \<mapsto> \<lparr>host = ''0.0.0.0'', port = 7000, clients = [201, 202, 13, 13, 2],
                         num_clients = 2, ids = 41\<rparr>],
           heap = [201 \<mapsto> \<lparr>id' = 40, slot = 0, server = 100\<rparr>,
                   202 \<mapsto> \<lparr>id' = 40, slot = 1, server = 100\<rparr>],
           bufs = Map.empty, trace = tr3\<rparr>"
    by (simp only: run_append 2 bindE_simps 3)
  have a23: "admissible_run env0 (app_hooks env0) 100 (?mid @ ?lst) [201] (wrap_st 0 41 tr1)"
    using a2 2 by (rule admissible_run_append) (simp only: live_after_cycles last_wrap_adm)
  have "run env0 (app_hooks env0) 100 evs_wrap s_created =
      Inr \<lparr>servers = [100 \<mapsto> \<lparr>host = ''0.0.0.0'', port = 7000, clients = [201, 202, 13, 13, 2],
                         num_clients = 2, ids = 41\<rparr>],
           heap = [201 \<mapsto> \<lparr>id' = 40, slot = 0, server = 100\<rparr>,
                   202 \<mapsto> \<lparr>id' = 40, slot = 1, server = 100\<rparr>],
           bufs = Map.empty, trace = tr3\<rparr>"
    unfolding e by (simp only: run_append [of _ _ _ "[Connection 0 201 junk_cl]"] 1 bindE_simps r23)
  moreover have "admissible_run env0 (app_hooks env0) 100 evs_wrap [] s_created"
    unfolding e using first_wrap_adm 1 by (rule admissible_run_append) (simp only: la1 a23)
  ultimately show ?thesis by blast
qed

subsection \<open>The path taken when the accept fails\<close>

lemma move_last_servers:
  assumes "move_last cp sp l s = Inr s1"
  shows "\<exists>v cs. servers s sp = Some v \<and> servers s1 = (servers s)(sp \<mapsto> v\<lparr>clients := cs\<rparr>)"
  using assms
  by (auto simp: move_last_def bindE_Inr_iff get_server_def Let_def split: if_splits option.splits)

lemma accept_failure_decrements:
  assumes srv: "servers s self = Some srv" and sn: "self \<noteq> NULL"
    and lt: "num_clients srv \<noteq> MAX_CLIENTS" and acc: "uv_accept_rc e p \<noteq> 0"
    and fr: "hooks_ok hk"
    and res: "onconnection e hk self status p junk s = Inr s'"
  shows "\<exists>v v'. servers s (server junk) = Some v \<and> servers s' (server junk) = Some v' \<and>
           num_clients v' = int_decr (num_clients v)"
proof -
  let ?s5 = "emit (check_log status ''onconnection''
                @ [Log_info ''Accepting Connection'' [], Malloc_client p, Uv_tcp_init p]
                @ check_log (uv_tcp_init_rc e p) ''uv_tcp_init''
                @ [Uv_accept self p, Log_error ''trying to accept connection %d'' [uv_accept_rc e p]])
              (put_client p junk s)"
  have g: "get_server s self = Inr srv" using srv sn by (simp add: get_server_Some)
  from res have pn: "p \<noteq> NULL" and d: "disconnect e hk p ?s5 = Inr s'"
    using lt acc
    by (auto simp: onconnection_def bindE_CHECK_Inr Let_def g bindE_simps put_emit emit_emit
        split: if_splits)
  have gc: "get_client ?s5 p = Inr junk" using pn by simp
  from d obtain v last_slot s1 v1 n s3 where
    v: "get_server ?s5 (server junk) = Inr v" and
    m: "(if slot junk < last_slot then move_last p (server junk) last_slot ?s5 else Inr ?s5) = Inr s1" and
    v1: "get_server s1 (server junk) = Inr v1" and
    n: "n = int_decr (num_clients v1)" and
    h: "onclient_disconnected hk p n
          (emit [Call_disconnected p n] (put_server (server junk) (v1\<lparr>num_clients := n\<rparr>) s1)) = Inr s3" and
    c: "CHECK e (uv_shutdown_rc e p) ''uv_shutdown'' (emit [Malloc_shutdown_req, Uv_shutdown p] s3) = Inr s'"
    unfolding disconnect_def using pn by (auto simp: bindE_simps Let_def bindE_Inr_iff)
  from v have sv: "servers s (server junk) = Some v"
    by (auto simp: get_server_def split: if_splits option.splits)
  have nv: "num_clients v1 = num_clients v"
  proof (cases "slot junk < last_slot")
    case True
    with m have "move_last p (server junk) last_slot ?s5 = Inr s1" by simp
    from move_last_servers [OF this] v1 sv show ?thesis
      by (auto simp: get_server_def split: if_splits option.splits)
  next
    case False
    with m v v1 show ?thesis by simp
  qed
  from fr have "hook_frame (onclient_disconnected hk p n)" by (simp add: hooks_ok_def)
  from hook_frameD(1) [OF this h] have "servers s3 (server junk) = Some (v1\<lparr>num_clients := n\<rparr>)"
    by simp
  moreover from c have "servers s' = servers s3" by (auto simp: CHECK_Inr)
  ultimately show ?thesis using sv nv n by simp
qed

subsection \<open>A negative read\<close>

lemma slot_swap_remove_frame:
  assumes "servers t = servers s" and "heap t = heap s"
  shows "slot_swap_remove self p t =
           t\<lparr>servers := servers (slot_swap_remove self p s),
             heap := heap (slot_swap_remove self p s)\<rparr>"
  using assms
  by (simp add: slot_swap_remove_def Let_def split: option.splits)

lemma read_cb_negative:
  assumes "\<not> check_exits e \<or> nread = UV_EOF" and "nread < 0"
    and "stream \<noteq> NULL" and "heap s stream = Some c"
    and "base b \<noteq> NULL" and "bufs s (base b) = Some bytes"
  shows "read_cb e hk stream nread b s =
           disconnect e hk stream
             (s\<lparr>bufs := (bufs s)(base b := None),
                trace := trace s @ (if nread \<noteq> UV_EOF then [Log_error ''read_cb'' [nread]] else [])
                           @ [Free (base b)]\<rparr>)"
  using assms
  by (auto simp: read_cb_def CHECK_def bindE_def get_client_def free_buf_def emit_def dom_def)

subsection \<open>The capacity check\<close>

text \<open>
  Claim C2. When \<open>num_clients\<close> equals \<open>MAX_CLIENTS\<close>, \<open>onconnection\<close> returns
  after two log lines (three when \<open>status\<close> is nonzero and \<open>CHECK\<close> goes on): no
  client record is allocated, no hook runs (the result does not depend on \<open>hk\<close>,
  \<open>p\<close> or \<open>junk\<close>), and the servers, the client records and the buffers are
  those of the state before. The only other outcome is the end of the process in
  \<open>CHECK(status)\<close>.
\<close>

theorem onconnection_full_rejects:
  assumes "tcp \<noteq> NULL" and "servers s tcp = Some srv" and "num_clients srv = MAX_CLIENTS"
  shows "onconnection e hk tcp status p junk s =
           (if status \<noteq> 0 \<and> check_exits e then Inl Process_exit
            else Inr (s\<lparr>trace := trace s
                     @ (if status \<noteq> 0 then [Log_error ''onconnection'' [status]] else [])
                     @ [Log_info ''Accepting Connection'' [],
                        Log_info ''exceeded allowed number of clients'' []]\<rparr>))"
  using assms by (rule onconnection_full)

theorem onconnection_full_rejects_witness:
  "onconnection env0 (app_hooks env0) 100 0 206 \<lparr>id' = 7, slot = 3, server = 100\<rparr> st5 =
     Inr (st5\<lparr>trace := [Log_info ''Accepting Connection'' [],
                           Log_info ''exceeded allowed number of clients'' []]\<rparr>)"
  using onconnection_full_rejects [of 100 st5
      "\<lparr>host = ''0.0.0.0'', port = 7000, clients = [201, 202, 203, 204, 205],
        num_clients = 5, ids = 5\<rparr>"
      env0 "app_hooks env0" 0 206 "\<lparr>id' = 7, slot = 3, server = 100\<rparr>"]
  by (simp add: st5_def NULL_def MAX_CLIENTS_def)

subsection \<open>The responder\<close>

text \<open>
  Claim C6. For a message whose buffer is allocated, \<open>onclient_msg_processed\<close>
  issues one write of exactly the response text to the message's client and then
  frees the message's buffer; nothing else in the state changes.
\<close>

theorem responder_writes_then_frees:
  assumes "buf msg \<noteq> NULL" and "bufs s (buf msg) = Some bytes"
  shows "onclient_msg_processed msg response s =
           Inr (s\<lparr>bufs := (bufs s)(buf msg := None),
                  trace := trace s @ [Malloc_write_req, Uv_write (client msg) response, Free (buf msg)]\<rparr>)"
  using assms by (simp add: onclient_msg_processed_def free_buf_def emit_def dom_def)

theorem responder_writes_then_frees_witness:
  "onclient_msg_processed \<lparr>buf = 300, len = 2, client = 201\<rparr> ''RaceTrack: WRONG'' st2 =
     Inr (st2\<lparr>bufs := (bufs st2)(300 := None),
              trace := [Malloc_write_req, Uv_write 201 ''RaceTrack: WRONG'', Free 300]\<rparr>)"
  using responder_writes_then_frees [of "\<lparr>buf = 300, len = 2, client = 201\<rparr>" st2 "''go''" "''RaceTrack: WRONG''"]
  by (simp add: st2_def NULL_def)

subsection \<open>Read events\<close>

text \<open>
  Claim C10. A read event with \<open>nread = 0\<close> on an allocated client frees the read
  buffer and does nothing else: no message is built, no hook is called (the result
  does not depend on \<open>hk\<close>), and the servers and the client records are unchanged.
\<close>

theorem read_cb_zero_bytes:
  assumes "stream \<noteq> NULL" and "heap s stream = Some c"
    and "base b \<noteq> NULL" and "bufs s (base b) = Some bytes"
  shows "read_cb e hk stream 0 b s =
           Inr (s\<lparr>bufs := (bufs s)(base b := None), trace := trace s @ [Free (base b)]\<rparr>)"
  using assms by (simp add: read_cb_def get_client_def bindE_def free_buf_def emit_def dom_def)

theorem read_cb_zero_bytes_witness:
  "read_cb env0 (app_hooks env0) 201 0 \<lparr>base = 300, buf_len = 65536\<rparr> st2 =
     Inr (st2\<lparr>bufs := (bufs st2)(300 := None), trace := [Free 300]\<rparr>)"
  using read_cb_zero_bytes [of 201 st2 "\<lparr>id' = 0, slot = 0, server = 100\<rparr>"
      "\<lparr>base = 300, buf_len = 65536\<rparr>" "''go''" env0 "app_hooks env0"]
  by (simp add: st2_def NULL_def)

text \<open>
  Claim C7. A read error other than end of file on a client of a well-formed
  registry, with a \<open>CHECK\<close> that logs and goes on and a disconnect hook that
  returns: \<open>read_cb\<close> returns, and its effects are, in this order, the log line
  of the error, the release of the read buffer, the call of the disconnect hook on
  the state in which the buffer is released and the client is out of the registry,
  what the hook does, and the shutdown request. In the final state the client is
  out of the registry, and the hook has been called once. The result is the result of
  \<open>read_cb\<close> for \<open>UV_EOF\<close> on the state with the log line.
\<close>

theorem read_cb_error_as_eof:
  assumes nce: "\<not> check_exits e" and neg: "nread < 0" and ne: "nread \<noteq> UV_EOF"
    and ok: "registry_ok s self" and srv: "servers s self = Some srv"
    and live: "stream \<in> set (live_entries s self)"
    and bn: "base b \<noteq> NULL" and ba: "bufs s (base b) = Some bytes"
    and fr: "hook_frame (onclient_disconnected hk stream (num_clients srv - 1))"
    and h: "onclient_disconnected hk stream (num_clients srv - 1)
              (s\<lparr>servers := servers (slot_swap_remove self stream s),
                 heap := heap (slot_swap_remove self stream s),
                 bufs := (bufs s)(base b := None),
                 trace := trace s @ [Log_error ''read_cb'' [nread], Free (base b),
                                    Call_disconnected stream (num_clients srv - 1)]\<rparr>) = Inr s2"
  shows "\<exists>s' es.
           read_cb e hk stream nread b s = Inr s' \<and>
           read_cb e hk stream UV_EOF b (emit [Log_error ''read_cb'' [nread]] s) = Inr s' \<and>
           s' = emit ([Malloc_shutdown_req, Uv_shutdown stream]
                      @ check_log (uv_shutdown_rc e stream) ''uv_shutdown'') s2 \<and>
           new_effects s s' =
             [Log_error ''read_cb'' [nread], Free (base b),
              Call_disconnected stream (num_clients srv - 1)] @ es
               @ [Malloc_shutdown_req, Uv_shutdown stream]
               @ check_log (uv_shutdown_rc e stream) ''uv_shutdown'' \<and>
           list_all app_effect es \<and>
           disconnect_calls stream (new_effects s s') = 1 \<and>
           servers s' = servers (slot_swap_remove self stream s) \<and>
           heap s' = heap (slot_swap_remove self stream s) \<and>
           set (live_entries s' self) = set (live_entries s self) - {stream} \<and>
           (\<exists>srv'. servers s' self = Some srv' \<and> num_clients srv' = num_clients srv - 1)"
proof -
  let ?n = "num_clients srv - 1"
  let ?tl = "[Malloc_shutdown_req, Uv_shutdown stream]
               @ check_log (uv_shutdown_rc e stream) ''uv_shutdown''"
  let ?t = "s\<lparr>bufs := (bufs s)(base b := None),
              trace := trace s @ [Log_error ''read_cb'' [nread], Free (base b)]\<rparr>"
  let ?s1 = "s\<lparr>servers := servers (slot_swap_remove self stream s),
                 heap := heap (slot_swap_remove self stream s),
                 bufs := (bufs s)(base b := None),
                 trace := trace s @ [Log_error ''read_cb'' [nread], Free (base b),
                                    Call_disconnected stream ?n]\<rparr>"
  from ok have okc: "registry_core s self" by (simp add: registry_ok_iff)
  from entry_in_heap [OF okc live] obtain c where c: "heap s stream = Some c" by blast
  from registry_core_distinct [OF okc] live have sn: "stream \<noteq> NULL" by auto
  have sv: "servers ?t = servers s" and hp: "heap ?t = heap s" by simp_all
  note fc = frame_cong [OF sv hp]
  have okt: "registry_core ?t self" using okc fc(2) by simp
  have srvt: "servers ?t self = Some srv" using srv by simp
  have livet: "stream \<in> set (live_entries ?t self)" using live fc(1) by simp
  have ct: "heap ?t stream = Some c" using c by simp
  have entry: "emit [Call_disconnected stream ?n] (slot_swap_remove self stream ?t) = ?s1"
    by (simp add: slot_swap_remove_frame [OF sv hp] emit_def)
  have r1: "read_cb e hk stream nread b s = disconnect e hk stream ?t"
    using read_cb_negative [of e nread stream s c b bytes hk] nce neg ne sn c bn ba by simp
  have r2: "read_cb e hk stream UV_EOF b (emit [Log_error ''read_cb'' [nread]] s) =
            disconnect e hk stream ?t"
    using read_cb_negative [of e UV_EOF stream "emit [Log_error ''read_cb'' [nread]] s" c b bytes hk]
      sn c bn ba
    by (simp add: UV_EOF_def emit_def)
  have h': "onclient_disconnected hk stream ?n
              (emit [Call_disconnected stream ?n] (slot_swap_remove self stream ?t)) = Inr s2"
    using h by (simp only: entry)
  from nce have chk: "uv_shutdown_rc e stream = 0 \<or> \<not> check_exits e" by simp
  have d: "disconnect e hk stream ?t = Inr (emit ?tl s2)"
    by (rule disconnect_returns [OF okt srvt livet ct h' chk])
  from hook_frameD [OF fr h] obtain es where
    f: "servers s2 = servers (slot_swap_remove self stream s)"
       "heap s2 = heap (slot_swap_remove self stream s)"
       "trace s2 = trace s @ [Log_error ''read_cb'' [nread], Free (base b),
                              Call_disconnected stream ?n] @ es"
    and es: "list_all app_effect es"
    by auto
  let ?s' = "emit ?tl s2"
  have sv': "servers ?s' = servers (slot_swap_remove self stream s)"
    and hp': "heap ?s' = heap (slot_swap_remove self stream s)"
    using f by simp_all
  have ne': "new_effects s ?s' =
      [Log_error ''read_cb'' [nread], Free (base b), Call_disconnected stream ?n] @ es @ ?tl"
    using f(3) by (simp add: new_effects_def)
  have tl0: "disconnect_calls stream ?tl = 0" by (simp add: check_log_def)
  have cnt: "disconnect_calls stream (new_effects s ?s') = 1"
    unfolding ne' disconnect_calls_append using disconnect_calls_app [OF es] tl0 by simp
  note rm = slot_swap_remove_ok [OF okc srv live c]
  note fl = slot_swap_remove_fields [OF okc srv live c]
  have L: "set (live_entries ?s' self) = set (live_entries s self) - {stream}"
    using rm(2) frame_cong(1) [OF sv' hp'] by simp
  have n': "\<exists>srv'. servers ?s' self = Some srv' \<and> num_clients srv' = num_clients srv - 1"
    by (simp add: f(1) fl(1))
  show ?thesis
    apply (rule exI [of _ ?s'])
    apply (rule exI [of _ es])
    apply (intro conjI)
             apply (simp only: r1 d)
            apply (simp only: r2 d)
           apply (rule refl)
          apply (rule ne')
         apply (rule es)
        apply (rule cnt)
       apply (rule sv')
      apply (rule hp')
     apply (rule L)
    apply (rule n')
    done
qed

theorem read_cb_error_as_eof_witness:
  "\<exists>s'. read_cb env0 (app_hooks env0) 201 (- 104) \<lparr>base = 300, buf_len = 65536\<rparr> st2 = Inr s' \<and>
        read_cb env0 (app_hooks env0) 201 UV_EOF \<lparr>base = 300, buf_len = 65536\<rparr>
          (emit [Log_error ''read_cb'' [- 104]] st2) = Inr s' \<and>
        new_effects st2 s' =
          [Log_error ''read_cb'' [- 104], Free 300, Call_disconnected 201 1,
           Log_info ''Player %d quit, %d total now.'' [0, 1], Malloc_write_req,
           Uv_write 202 ''Player quit :(\<newline>'', Malloc_shutdown_req, Uv_shutdown 201] \<and>
        set (live_entries s' 100) = {202}"
proof -
  let ?srv = "\<lparr>host = ''0.0.0.0'', port = 7000, clients = [201, 202, 0, 0, 0],
               num_clients = 2, ids = 2\<rparr>"
  let ?b = "\<lparr>base = 300, buf_len = 65536\<rparr>"
  let ?s1 = "st2\<lparr>servers := servers (slot_swap_remove 100 201 st2),
                 heap := heap (slot_swap_remove 100 201 st2),
                 bufs := (bufs st2)(base ?b := None),
                 trace := trace st2 @ [Log_error ''read_cb'' [- 104], Free (base ?b),
                                    Call_disconnected 201 (num_clients ?srv - 1)]\<rparr>"
  let ?s2 = "emit [Log_info ''Player %d quit, %d total now.'' [0, 1], Malloc_write_req,
                   Uv_write 202 ''Player quit :(\<newline>''] ?s1"
  have nce: "\<not> check_exits env0" by (simp add: env0_def)
  have srv: "servers st2 100 = Some ?srv" by (simp add: st2_def)
  have live: "201 \<in> set (live_entries st2 100)" by (simp add: st2_def live_entries_def)
  have bn: "base ?b \<noteq> NULL" by (simp add: NULL_def)
  have ba: "bufs st2 (base ?b) = Some ''go''" by (simp add: st2_def)
  have fr: "hook_frame (onclient_disconnected (app_hooks env0) 201 (num_clients ?srv - 1))"
    using hooks_ok_app [of env0] by (simp add: hooks_ok_def)
  have h: "onclient_disconnected (app_hooks env0) 201 (num_clients ?srv - 1) ?s1 = Inr ?s2"
    by (simp add: eval_defs st2_def slot_swap_remove_def)
  have L: "set (live_entries st2 100) - {201} = {202}"
    by (auto simp: st2_def live_entries_def)
  from read_cb_error_as_eof [of env0 "- 104" st2 100 ?srv 201 ?b "''go''" "app_hooks env0" ?s2,
      OF nce _ _ registry_ok_st2 srv live bn ba fr h]
  obtain s' es where
    r: "read_cb env0 (app_hooks env0) 201 (- 104) ?b st2 = Inr s'"
       "read_cb env0 (app_hooks env0) 201 UV_EOF ?b (emit [Log_error ''read_cb'' [- 104]] st2) = Inr s'"
       "s' = emit ([Malloc_shutdown_req, Uv_shutdown 201]
                      @ check_log (uv_shutdown_rc env0 201) ''uv_shutdown'') ?s2"
       "set (live_entries s' 100) = set (live_entries st2 100) - {201}"
    by (auto simp: UV_EOF_def)
  from r(3) have "new_effects st2 s' =
          [Log_error ''read_cb'' [- 104], Free 300, Call_disconnected 201 1,
           Log_info ''Player %d quit, %d total now.'' [0, 1], Malloc_write_req,
           Uv_write 202 ''Player quit :(\<newline>'', Malloc_shutdown_req, Uv_shutdown 201]"
    by (simp add: new_effects_def emit_def check_log_def env0_def st2_def)
  with r L show ?thesis by simp
qed

text \<open>With a \<open>CHECK\<close> that ends the process, the same read error ends it.\<close>

lemma read_cb_error_exits:
  assumes "check_exits e" and "nread < 0" and "nread \<noteq> UV_EOF"
    and "stream \<noteq> NULL" and "heap s stream = Some c"
  shows "read_cb e hk stream nread b s = Inl Process_exit"
  using assms by (simp add: read_cb_def CHECK_def bindE_def get_client_def)

subsection \<open>Removal from the registry\<close>

text \<open>
  Claim C3. \<open>disconnect\<close> of a client that is in a well-formed registry: when its
  slot is below the last live index, the record at the last live index is the only
  one relocated (the array changes at that slot alone, and only that record's
  \<open>slot\<close> field is written, to the slot it moves to); when it is the last live
  index, the array and every record are unchanged; in both cases \<open>num_clients\<close>
  drops by one. The disconnect hook is assumed to leave servers and records alone.
\<close>

theorem disconnect_slot_swap:
  assumes ok: "registry_ok s self" and srv: "servers s self = Some srv"
    and live: "p \<in> set (live_entries s self)" and c: "heap s p = Some c"
    and fr: "hook_frame (onclient_disconnected hk p (num_clients srv - 1))"
    and res: "disconnect e hk p s = Inr s'"
  shows "\<exists>cq. heap s (clients srv ! nat (num_clients srv - 1)) = Some cq \<and>
           slot c \<le> num_clients srv - 1 \<and>
           servers s' = (servers s)(self \<mapsto> srv\<lparr>clients :=
              (if slot c < num_clients srv - 1
               then (clients srv)[nat (slot c) := clients srv ! nat (num_clients srv - 1)]
               else clients srv),
              num_clients := num_clients srv - 1\<rparr>) \<and>
           heap s' =
              (if slot c < num_clients srv - 1
               then (heap s)(clients srv ! nat (num_clients srv - 1) \<mapsto> cq\<lparr>slot := slot c\<rparr>)
               else heap s) \<and>
           (slot c < num_clients srv - 1 \<longrightarrow> clients srv ! nat (num_clients srv - 1) \<noteq> p)"
proof -
  let ?r = "slot_swap_remove self p s"
  from ok have okc: "registry_core s self" by (simp add: registry_ok_iff)
  from disconnect_step [OF okc srv live c fr res] obtain s2 where
    s2: "servers s2 = servers ?r" "heap s2 = heap ?r" and
    s': "s' = emit ([Malloc_shutdown_req, Uv_shutdown p]
                      @ check_log (uv_shutdown_rc e p) ''uv_shutdown'') s2"
    by blast
  have sv: "servers s' = servers ?r" and hp: "heap s' = heap ?r"
    using s2 s' by simp_all
  note fl = slot_swap_remove_fields [OF okc srv live c]
  note l = registry_core_live [OF okc srv live c]
  from fl(2) obtain cq where cq: "heap s (clients srv ! nat (num_clients srv - 1)) = Some cq" and
    hr: "heap ?r = (if slot c < num_clients srv - 1
               then (heap s)(clients srv ! nat (num_clients srv - 1) \<mapsto> cq\<lparr>slot := slot c\<rparr>)
               else heap s)"
    by (elim exE conjE)
  have ne: "clients srv ! nat (num_clients srv - 1) \<noteq> p" if "slot c < num_clients srv - 1"
    using move_last_eq [OF okc srv live c that] by blast
  show ?thesis
    using cq l ne by (intro exI [of _ cq]) (simp add: sv hp fl(1) hr)
qed

theorem disconnect_slot_swap_witness:
  "\<exists>s'. disconnect env0 (app_hooks env0) 201 st2 = Inr s' \<and>
        servers s' = [100 \<mapsto> \<lparr>host = ''0.0.0.0'', port = 7000, clients = [202, 202, 0, 0, 0],
                              num_clients = 1, ids = 2\<rparr>] \<and>
        heap s' = [201 \<mapsto> \<lparr>id' = 0, slot = 0, server = 100\<rparr>,
                   202 \<mapsto> \<lparr>id' = 1, slot = 0, server = 100\<rparr>]"
proof -
  from not_isl_Inr [OF disconnect_example_returns] obtain s' where
    r: "disconnect env0 (app_hooks env0) 201 st2 = Inr s'" ..
  have srv: "servers st2 100 = Some \<lparr>host = ''0.0.0.0'', port = 7000, clients = [201, 202, 0, 0, 0],
                              num_clients = 2, ids = 2\<rparr>"
    by (simp add: st2_def)
  have live: "201 \<in> set (live_entries st2 100)" by (simp add: st2_def live_entries_def)
  have c: "heap st2 201 = Some \<lparr>id' = 0, slot = 0, server = 100\<rparr>" by (simp add: st2_def)
  have fr: "hook_frame (onclient_disconnected (app_hooks env0) 201
      (num_clients \<lparr>host = ''0.0.0.0'', port = 7000, clients = [201, 202, 0, 0, 0],
                              num_clients = 2, ids = 2\<rparr> - 1))"
    using hooks_ok_app [of env0] by (simp add: hooks_ok_def)
  from disconnect_slot_swap [OF registry_ok_st2 srv live c fr r]
  have "servers s' = [100 \<mapsto> \<lparr>host = ''0.0.0.0'', port = 7000, clients = [202, 202, 0, 0, 0],
                              num_clients = 1, ids = 2\<rparr>] \<and>
        heap s' = [201 \<mapsto> \<lparr>id' = 0, slot = 0, server = 100\<rparr>,
                   202 \<mapsto> \<lparr>id' = 1, slot = 0, server = 100\<rparr>]"
    by (auto simp: st2_def)
  with r show ?thesis by blast
qed

text \<open>
  Claim C4. In \<open>disconnect\<close> of a registered client the hook is called once: with
  the state \<open>s1\<close> in which the client is already out of \<open>clients[0..num_clients)\<close>
  and \<open>num_clients\<close> is decremented, and before \<open>uv_shutdown\<close> is issued. The
  effects of the call are the hook marker, what the hook does, then the shutdown
  request. A broadcast from \<open>s1\<close> or from the final state writes to no handle of
  the disconnecting client.
\<close>

theorem disconnect_hook_order:
  assumes ok: "registry_ok s self" and srv: "servers s self = Some srv"
    and live: "p \<in> set (live_entries s self)" and c: "heap s p = Some c"
    and fr: "hook_frame (onclient_disconnected hk p (num_clients srv - 1))"
    and res: "disconnect e hk p s = Inr s'"
  shows "\<exists>s1 s2 es srv1.
           trace s1 = trace s @ [Call_disconnected p (num_clients srv - 1)] \<and>
           servers s1 self = Some srv1 \<and> num_clients srv1 = num_clients srv - 1 \<and>
           p \<notin> set (live_entries s1 self) \<and>
           onclient_disconnected hk p (num_clients srv - 1) s1 = Inr s2 \<and>
           trace s2 = trace s1 @ es \<and> list_all app_effect es \<and>
           s' = emit ([Malloc_shutdown_req, Uv_shutdown p]
                      @ check_log (uv_shutdown_rc e p) ''uv_shutdown'') s2 \<and>
           new_effects s s' =
             [Call_disconnected p (num_clients srv - 1)] @ es
               @ [Malloc_shutdown_req, Uv_shutdown p]
               @ check_log (uv_shutdown_rc e p) ''uv_shutdown'' \<and>
           disconnect_calls p (new_effects s s') = 1 \<and>
           p \<notin> set (live_entries s' self) \<and>
           (\<forall>e1 m sb. luv_server_broadcast e1 self m s1 = Inr sb \<longrightarrow>
              p \<notin> fst ` set (writes_of (new_effects s1 sb))) \<and>
           (\<forall>e1 m sb. luv_server_broadcast e1 self m s' = Inr sb \<longrightarrow>
              p \<notin> fst ` set (writes_of (new_effects s' sb)))"
proof -
  let ?n = "num_clients srv - 1"
  let ?r = "slot_swap_remove self p s"
  let ?s1 = "emit [Call_disconnected p ?n] ?r"
  let ?tl = "[Malloc_shutdown_req, Uv_shutdown p] @ check_log (uv_shutdown_rc e p) ''uv_shutdown''"
  from ok have okc: "registry_core s self" by (simp add: registry_ok_iff)
  from disconnect_step [OF okc srv live c fr res] obtain s2 es where
    h: "onclient_disconnected hk p ?n ?s1 = Inr s2" and
    s2: "servers s2 = servers ?r" "heap s2 = heap ?r" and
    tr2: "trace s2 = trace s @ [Call_disconnected p ?n] @ es" and
    es: "list_all app_effect es" and
    s': "s' = emit ?tl s2"
    by blast
  note fl = slot_swap_remove_fields [OF okc srv live c]
  note rm = slot_swap_remove_ok [OF okc srv live c]
  have tr1: "trace ?s1 = trace s @ [Call_disconnected p ?n]" by (simp add: fl(4))
  have sv1: "servers ?s1 self = Some (srv\<lparr>clients :=
              (if slot c < num_clients srv - 1
               then (clients srv)[nat (slot c) := clients srv ! nat (num_clients srv - 1)]
               else clients srv),
              num_clients := ?n\<rparr>)"
    by (simp add: fl(1))
  have L1: "live_entries ?s1 self = live_entries ?r self"
    by (simp add: live_entries_def)
  have L': "live_entries s' self = live_entries ?r self"
    using s2 s' by (simp add: live_entries_def)
  have p1: "p \<notin> set (live_entries ?s1 self)" using rm(2) L1 by simp
  have p': "p \<notin> set (live_entries s' self)" using rm(2) L' by simp
  have ne: "new_effects s s' = [Call_disconnected p ?n] @ es @ ?tl"
    using s' tr2 by (simp add: new_effects_def)
  have tl0: "disconnect_calls p ?tl = 0" by (simp add: check_log_def)
  have cnt: "disconnect_calls p (new_effects s s') = 1"
    unfolding ne disconnect_calls_append using disconnect_calls_app [OF es] tl0 by simp
  have bc: "p \<notin> fst ` set (writes_of (new_effects t sb))"
    if "luv_server_broadcast e1 self m t = Inr sb" and "p \<notin> set (live_entries t self)"
    for e1 m t sb
  proof -
    from that(1) have "broadcast_loop e1 self m 0 t = Inr sb"
      by (simp only: luv_server_broadcast_def)
    from broadcast_loop_frame [OF this] obtain es where
      "sb = emit es t" "fst ` set (writes_of es) \<subseteq> set (live_entries t self)"
      by auto
    with that(2) show ?thesis by auto
  qed
  have b1: "\<forall>e1 m sb. luv_server_broadcast e1 self m ?s1 = Inr sb \<longrightarrow>
              p \<notin> fst ` set (writes_of (new_effects ?s1 sb))"
    using bc [OF _ p1] by blast
  have b2: "\<forall>e1 m sb. luv_server_broadcast e1 self m s' = Inr sb \<longrightarrow>
              p \<notin> fst ` set (writes_of (new_effects s' sb))"
    using bc [OF _ p'] by blast
  show ?thesis
    apply (rule exI [of _ ?s1])
    apply (rule exI [of _ s2])
    apply (rule exI [of _ es])
    apply (rule exI)
    apply (intro conjI)
                apply (rule tr1)
               apply (rule sv1)
              apply simp
             apply (rule p1)
            apply (rule h)
           apply (simp add: tr2 fl(4))
          apply (rule es)
         apply (rule s')
        apply (rule ne)
       apply (rule cnt)
      apply (rule p')
     apply (rule b1)
    apply (rule b2)
    done
qed

theorem disconnect_hook_order_witness:
  "\<exists>s'. disconnect env0 (app_hooks env0) 201 st2 = Inr s' \<and>
        disconnect_calls 201 (new_effects st2 s') = 1 \<and>
        201 \<notin> set (live_entries s' 100)"
proof -
  from not_isl_Inr [OF disconnect_example_returns] obtain s' where
    r: "disconnect env0 (app_hooks env0) 201 st2 = Inr s'" ..
  have srv: "servers st2 100 = Some \<lparr>host = ''0.0.0.0'', port = 7000, clients = [201, 202, 0, 0, 0],
                              num_clients = 2, ids = 2\<rparr>"
    by (simp add: st2_def)
  have live: "201 \<in> set (live_entries st2 100)" by (simp add: st2_def live_entries_def)
  have c: "heap st2 201 = Some \<lparr>id' = 0, slot = 0, server = 100\<rparr>" by (simp add: st2_def)
  have fr: "hook_frame (onclient_disconnected (app_hooks env0) 201
      (num_clients \<lparr>host = ''0.0.0.0'', port = 7000, clients = [201, 202, 0, 0, 0],
                              num_clients = 2, ids = 2\<rparr> - 1))"
    using hooks_ok_app [of env0] by (simp add: hooks_ok_def)
  from disconnect_hook_order [OF registry_ok_st2 srv live c fr r]
  have "disconnect_calls 201 (new_effects st2 s') = 1 \<and> 201 \<notin> set (live_entries s' 100)"
    by blast
  with r show ?thesis by blast
qed

subsection \<open>Broadcast\<close>

text \<open>
  Claim C5. With a \<open>CHECK\<close> that logs and goes on, \<open>luv_server_broadcast\<close>
  returns, changes neither servers nor records, and issues one \<open>uv_write\<close> of the
  message per non-null entry of \<open>clients[0..num_clients)\<close>, in index order,
  whatever the writes return; each null entry yields one warning with its index.
\<close>

theorem broadcast_fanout:
  assumes "self \<noteq> NULL" and "servers s self = Some srv"
    and "num_clients srv \<le> MAX_CLIENTS" and "length (clients srv) = nat MAX_CLIENTS"
    and "\<not> check_exits e"
  shows "\<exists>s'. luv_server_broadcast e self msg s = Inr s' \<and>
           servers s' = servers s \<and> heap s' = heap s \<and> bufs s' = bufs s \<and>
           new_effects s s' =
             concat (map (broadcast_effects e msg) (enumerate 0 (live_entries s self))) \<and>
           writes_of (new_effects s s') =
             map (\<lambda>p. (p, msg)) (filter (\<lambda>p. p \<noteq> NULL) (live_entries s self)) \<and>
           warned (new_effects s s') =
             map (\<lambda>ip. int (fst ip)) (filter (\<lambda>ip. snd ip = NULL) (enumerate 0 (live_entries s self)))"
proof -
  let ?es = "concat (map (broadcast_effects e msg) (enumerate 0 (live_entries s self)))"
  have eq: "luv_server_broadcast e self msg s = Inr (emit ?es s)"
    using broadcast_loop_eq [OF assms, of 0 msg] assms(2)
    by (simp add: luv_server_broadcast_def live_entries_def)
  have "writes_of ?es = map (\<lambda>ip. (snd ip, msg))
          (filter (\<lambda>ip. snd ip \<noteq> NULL) (enumerate 0 (live_entries s self)))"
    by (rule writes_of_broadcast_effects)
  also have "\<dots> = map (\<lambda>p. (p, msg))
          (map snd (filter (\<lambda>ip. snd ip \<noteq> NULL) (enumerate 0 (live_entries s self))))"
    by (simp add: comp_def)
  also have "\<dots> = map (\<lambda>p. (p, msg)) (filter (\<lambda>p. p \<noteq> NULL) (live_entries s self))"
    using filter_snd_enumerate [of "\<lambda>p. p \<noteq> NULL" 0 "live_entries s self"] by simp
  finally have w: "writes_of ?es =
      map (\<lambda>p. (p, msg)) (filter (\<lambda>p. p \<noteq> NULL) (live_entries s self))" .
  show ?thesis
    using eq w by (simp add: warned_broadcast_effects)
qed

theorem broadcast_fanout_witness:
  "\<exists>s'. luv_server_broadcast env_wfail 100 ''hi'' st_gap = Inr s' \<and>
        writes_of (new_effects st_gap s') = [(201, ''hi''), (202, ''hi'')] \<and>
        warned (new_effects st_gap s') = [1]"
proof -
  have srv: "servers st_gap 100 = Some \<lparr>host = ''0.0.0.0'', port = 7000, clients = [201, 0, 202, 0, 0],
                              num_clients = 3, ids = 2\<rparr>"
    by (simp add: st_gap_def)
  have L: "live_entries st_gap 100 = [201, 0, 202]"
    by (simp add: live_entries_def st_gap_def)
  have h: "(100::nat) \<noteq> NULL"
    "num_clients \<lparr>host = ''0.0.0.0'', port = 7000, clients = [201, 0, 202, 0, 0],
                              num_clients = 3, ids = 2\<rparr> \<le> MAX_CLIENTS"
    "length (clients \<lparr>host = ''0.0.0.0'', port = 7000, clients = [201, 0, 202, 0, 0],
                              num_clients = 3, ids = 2\<rparr>) = nat MAX_CLIENTS"
    "\<not> check_exits env_wfail"
    by (simp_all add: NULL_def MAX_CLIENTS_def env_wfail_def env0_def)
  from broadcast_fanout [OF h(1) srv h(2,3,4), of "''hi''"] obtain s' where
    r: "luv_server_broadcast env_wfail 100 ''hi'' st_gap = Inr s'" and
    w: "writes_of (new_effects st_gap s') =
          map (\<lambda>p. (p, ''hi'')) (filter (\<lambda>p. p \<noteq> NULL) (live_entries st_gap 100))" and
    n: "warned (new_effects st_gap s') =
          map (\<lambda>ip. int (fst ip)) (filter (\<lambda>ip. snd ip = NULL) (enumerate 0 (live_entries st_gap 100)))"
    by blast
  from w have "writes_of (new_effects st_gap s') = [(201, ''hi''), (202, ''hi'')]"
    by (simp add: L NULL_def)
  moreover from n have "warned (new_effects st_gap s') = [1]"
    by (simp add: L NULL_def)
  ultimately show ?thesis using r by blast
qed

text \<open>With a \<open>CHECK\<close> that ends the process, a failing write to the first client ends it.\<close>

lemma broadcast_exits_on_failed_write:
  assumes "check_exits e" and "self \<noteq> NULL" and "servers s self = Some srv"
    and "0 < num_clients srv" and "in_bounds (clients srv) 0"
    and "clients srv ! 0 \<noteq> NULL" and "uv_write_rc e (clients srv ! 0) \<noteq> 0"
  shows "luv_server_broadcast e self msg s = Inl Process_exit"
  using assms unfolding luv_server_broadcast_def
  by (subst broadcast_loop.simps) (simp add: get_server_def array_get_def CHECK_def)

subsection \<open>Sequences of events\<close>

text \<open>
  Claim C1. From a server just returned by \<open>luv_server_create\<close>, along any
  sequence of connection events whose accept succeeds, disconnects of live clients
  and close callbacks of clients that are no longer live, after each event:
  \<open>num_clients\<close> is between 0 and \<open>MAX_CLIENTS\<close>, the entries below
  \<open>num_clients\<close> are non-null, pairwise distinct, each pointing to a record
  whose \<open>slot\<close> is its index and whose \<open>server\<close> is this server, and they are
  exactly the live connections; and as long as at most \<open>2 ^ 32\<close> connections
  have been taken in, the live records have pairwise distinct ids.
\<close>

theorem registry_invariant:
  assumes "luv_server_create e p0 junk0 h pt s0 = Inr (self, s1)"
    and "length (clients junk0) = nat MAX_CLIENTS"
    and "hooks_ok hk"
    and "admissible_run e hk self evs [] s1"
    and "run e hk self evs s1 = Inr s'"
  shows "\<forall>k \<le> length evs. \<exists>sk.
           run e hk self (take k evs) s1 = Inr sk \<and>
           registry_core sk self \<and>
           set (live_entries sk self) = set (live_after (take k evs) []) \<and>
           (accept_count (take k evs) [] \<le> 4294967296 \<longrightarrow> registry_ok sk self)"
proof (intro allI impI)
  fix k assume "k \<le> length evs"
  from run_prefix [OF assms(5), of k] obtain sk where
    sk: "run e hk self (take k evs) s1 = Inr sk" ..
  have "admissible_run e hk self (take k evs @ drop k evs) [] s1" using assms(4) by simp
  then have adm: "admissible_run e hk self (take k evs) [] s1" by (rule admissible_run_prefix)
  note fresh = luv_server_create_fresh [OF assms(1,2)]
  from run_tracks [OF assms(3) fresh(1) adm sk]
  have c: "registry_core sk self" "set (live_entries sk self) = set (live_after (take k evs) [])"
    by (simp_all add: tracks_def)
  have "registry_ok sk self" if "accept_count (take k evs) [] \<le> 4294967296"
  proof -
    from that have "int 0 + int (accept_count (take k evs) []) \<le> 4294967296" by simp
    from run_ids_tracked [OF assms(3) fresh(1,2) adm sk this]
    show ?thesis using c(1) by (simp add: registry_ok_iff ids_tracked_def)
  qed
  with sk c show "\<exists>sk. run e hk self (take k evs) s1 = Inr sk \<and> registry_core sk self \<and>
           set (live_entries sk self) = set (live_after (take k evs) []) \<and>
           (accept_count (take k evs) [] \<le> 4294967296 \<longrightarrow> registry_ok sk self)"
    by blast
qed

theorem registry_invariant_witness:
  "\<exists>s'. run env0 (app_hooks env0) 100 evs0 s_created = Inr s' \<and>
        registry_ok s' 100 \<and> set (live_entries s' 100) = {202, 203}"
proof -
  from not_isl_Inr [OF run_example_returns] obtain s' where
    r: "run env0 (app_hooks env0) 100 evs0 s_created = Inr s'" ..
  have len: "length (clients junk_srv) = nat MAX_CLIENTS"
    by (simp add: junk_srv_def MAX_CLIENTS_def)
  have la: "set (live_after evs0 []) = {202, 203}"
    by (auto simp: evs0_def MAX_CLIENTS_def)
  have ac: "accept_count evs0 [] \<le> 4294967296"
    by (simp add: evs0_def MAX_CLIENTS_def)
  from registry_invariant [OF create_example len hooks_ok_app run_example_admissible r]
  have "\<exists>sk. run env0 (app_hooks env0) 100 (take (length evs0) evs0) s_created = Inr sk \<and>
           registry_core sk 100 \<and>
           set (live_entries sk 100) = set (live_after (take (length evs0) evs0) []) \<and>
           (accept_count (take (length evs0) evs0) [] \<le> 4294967296 \<longrightarrow> registry_ok sk 100)"
    by blast
  then have "registry_ok s' 100 \<and> set (live_entries s' 100) = {202, 203}"
    using r la ac by auto
  with r show ?thesis by blast
qed

text \<open>
  After \<open>2 ^ 32\<close> increments the counter is back at the id of a client that is
  still connected: at the end of the long run the two live records 201 and 202 both
  have the id 40.
\<close>

theorem ids_collide_after_wrap:
  "luv_server_create env0 100 junk_srv ''0.0.0.0'' 7000 s_init = Inr (100, s_created) \<and>
   admissible_run env0 (app_hooks env0) 100 evs_wrap [] s_created \<and>
   \<not> isl (run env0 (app_hooks env0) 100 evs_wrap s_created) \<and>
   live_entries (projr (run env0 (app_hooks env0) 100 evs_wrap s_created)) 100 = [201, 202] \<and>
   id_of (projr (run env0 (app_hooks env0) 100 evs_wrap s_created)) 201 = Some 40 \<and>
   id_of (projr (run env0 (app_hooks env0) 100 evs_wrap s_created)) 202 = Some 40 \<and>
   \<not> registry_ok (projr (run env0 (app_hooks env0) 100 evs_wrap s_created)) 100"
proof -
  note c = create_example
  from run_wrap obtain tr where
    r: "run env0 (app_hooks env0) 100 evs_wrap s_created =
      Inr \<lparr>servers = [100 \<mapsto> \<lparr>host = ''0.0.0.0'', port = 7000, clients = [201, 202, 13, 13, 2],
                         num_clients = 2, ids = 41\<rparr>],
           heap = [201 \<mapsto> \<lparr>id' = 40, slot = 0, server = 100\<rparr>,
                   202 \<mapsto> \<lparr>id' = 40, slot = 1, server = 100\<rparr>],
           bufs = Map.empty, trace = tr\<rparr>"
    and a: "admissible_run env0 (app_hooks env0) 100 evs_wrap [] s_created"
    by blast
  show ?thesis
    unfolding r using c a
    by (simp add: live_entries_def id_of_def registry_ok_def)
qed

text \<open>
  Claim C9. Along such a sequence, on a server whose counter \<open>ids\<close> starts at
  \<open>v\<close> (the field is not initialised by \<open>luv_server_create\<close>), the \<open>j\<close>-th
  connection taken in, counting from 0, gets the id \<open>v + j\<close> brought back into the
  range of \<open>int\<close>. So the ids are strictly increasing in the order of acceptance
  as long as \<open>v + j\<close> stays at most \<open>INT_MAX\<close>, and no id is given twice among the
  first \<open>2 ^ 32\<close> connections.
\<close>

theorem identities_strictly_increase:
  assumes "luv_server_create e p0 junk0 h pt s0 = Inr (self, s1)"
    and "length (clients junk0) = nat MAX_CLIENTS"
    and "hooks_ok hk"
    and "admissible_run e hk self evs [] s1"
    and "INT_MIN \<le> ids junk0" and "ids junk0 \<le> INT_MAX"
  shows "accepted_ids e hk self evs s1 =
           map (\<lambda>j. wrap_int (ids junk0 + int j)) [0..<length (accepted_ids e hk self evs s1)] \<and>
         (ids junk0 + int (length (accepted_ids e hk self evs s1)) \<le> INT_MAX + 1 \<longrightarrow>
            sorted_wrt (<) (accepted_ids e hk self evs s1)) \<and>
         (length (accepted_ids e hk self evs s1) \<le> 4294967296 \<longrightarrow>
            distinct (accepted_ids e hk self evs s1))"
proof -
  let ?ids = "accepted_ids e hk self evs s1"
  let ?v = "ids junk0"
  note fresh = luv_server_create_fresh [OF assms(1,2)]
  from fresh(3) obtain srv where srv: "servers s1 self = Some srv" and v: "ids srv = ?v"
    by blast
  have w: "wrap_int (ids srv) = ids srv" using assms(5,6) v by (simp add: wrap_int_id)
  from accepted_ids_exact [OF assms(3) fresh(1) srv w assms(4)] v
  have ex: "?ids = map (\<lambda>j. wrap_int (?v + int j)) [0..<length ?ids]" by simp
  have so: "sorted_wrt (<) ?ids" if le: "?v + int (length ?ids) \<le> INT_MAX + 1"
  proof -
    have "wrap_int (?v + int j) = ?v + int j" if "j < length ?ids" for j
      using that le assms(5) by (intro wrap_int_id) simp_all
    then have "map (\<lambda>j. wrap_int (?v + int j)) [0..<length ?ids] =
               map (\<lambda>j. ?v + int j) [0..<length ?ids]"
      by simp
    with ex have "?ids = map (\<lambda>j. ?v + int j) [0..<length ?ids]" by simp
    moreover have "sorted_wrt (<) (map (\<lambda>j. ?v + int j) [0..<n])" for n
      by (simp add: sorted_wrt_map sorted_wrt_iff_nth_less)
    ultimately show ?thesis by metis
  qed
  have di: "distinct ?ids" if le: "length ?ids \<le> 4294967296"
  proof -
    have "inj_on (\<lambda>j. wrap_int (?v + int j)) {0..<length ?ids}"
    proof (rule inj_onI)
      fix i j assume i: "i \<in> {0..<length ?ids}" and j: "j \<in> {0..<length ?ids}"
        and eq: "wrap_int (?v + int i) = wrap_int (?v + int j)"
      from eq have "wrap_int (?v + int i) mod 4294967296 = wrap_int (?v + int j) mod 4294967296"
        by simp
      then have "(?v + int i) mod 4294967296 = (?v + int j) mod 4294967296"
        by (simp only: wrap_int_mod)
      then have "4294967296 dvd ((?v + int i) - (?v + int j))"
        by (simp only: mod_eq_dvd_iff)
      then have dv: "(4294967296 :: int) dvd (int i - int j)" by simp
      have "\<bar>int i - int j\<bar> < 4294967296" using i j le by auto
      with dv have "int i - int j = 0"
        using zdvd_imp_le [of 4294967296 "\<bar>int i - int j\<bar>"] by (cases "int i - int j = 0") auto
      then show "i = j" by simp
    qed
    then have "distinct (map (\<lambda>j. wrap_int (?v + int j)) [0..<length ?ids])"
      by (simp add: distinct_map)
    with ex show ?thesis by metis
  qed
  from ex so di show ?thesis by blast
qed

theorem identities_strictly_increase_witness:
  "INT_MIN \<le> ids junk_srv \<and> ids junk_srv \<le> INT_MAX \<and>
   accepted_ids env0 (app_hooks env0) 100 evs0 s_created = [40, 41, 42] \<and>
   sorted_wrt (<) (accepted_ids env0 (app_hooks env0) 100 evs0 s_created) \<and>
   distinct (accepted_ids env0 (app_hooks env0) 100 evs0 s_created)"
proof -
  have len: "length (clients junk_srv) = nat MAX_CLIENTS"
    by (simp add: junk_srv_def MAX_CLIENTS_def)
  have lo: "INT_MIN \<le> ids junk_srv" and hi: "ids junk_srv \<le> INT_MAX"
    by (simp_all add: junk_srv_def INT_MIN_def INT_MAX_def)
  from identities_strictly_increase [OF create_example len hooks_ok_app run_example_admissible lo hi]
    run_example_ids lo hi
  show ?thesis by (simp add: junk_srv_def INT_MAX_def)
qed

text \<open>
  A server whose block held \<open>INT_MAX\<close> in \<open>ids\<close>: the first connection gets
  \<open>INT_MAX\<close> and the second \<open>INT_MIN\<close>.
\<close>

theorem identities_wrap_at_int_max:
  "luv_server_create env0 100 junk_srv_max ''0.0.0.0'' 7000 s_init = Inr (100, s_created_max) \<and>
   admissible_run env0 (app_hooks env0) 100 evs_two [] s_created_max \<and>
   \<not> isl (run env0 (app_hooks env0) 100 evs_two s_created_max) \<and>
   accepted_ids env0 (app_hooks env0) 100 evs_two s_created_max = [2147483647, - 2147483648] \<and>
   \<not> sorted_wrt (<) (accepted_ids env0 (app_hooks env0) 100 evs_two s_created_max)"
proof -
  have 1: "luv_server_create env0 100 junk_srv_max ''0.0.0.0'' 7000 s_init = Inr (100, s_created_max)"
    by (simp add: luv_server_create_def env0_def junk_srv_max_def s_init_def s_created_max_def
        NULL_def bindE_def CHECK_def emit_def put_server_def Let_def)
  have 2: "admissible_run env0 (app_hooks env0) 100 evs_two [] s_created_max"
    by (simp add: eval_defs evs_two_def s_created_max_def)
  have 3: "\<not> isl (run env0 (app_hooks env0) 100 evs_two s_created_max)"
    by (simp add: eval_defs evs_two_def s_created_max_def)
  have 4: "accepted_ids env0 (app_hooks env0) 100 evs_two s_created_max = [2147483647, - 2147483648]"
    by (simp add: eval_defs evs_two_def s_created_max_def new_id_def live_entries_def)
  from 1 2 3 4 show ?thesis by simp
qed

subsection \<open>A failing accept\<close>

text \<open>
  Claim C8. When \<open>uv_accept\<close> fails, \<open>onconnection\<close> calls \<open>disconnect\<close> on
  the client it has just allocated, whose \<open>server\<close> and \<open>slot\<close> fields were never
  assigned. Here the block still holds the fields of an earlier client of the same
  server: the live client 201 is overwritten in the array by 202,
  \<open>num_clients\<close> drops from 2 to 1, and the disconnect hook runs for a
  connection that was never registered.
\<close>

theorem accept_failure_evicts_live_client:
  "onconnection env_afail (app_hooks env_afail) 100 0 206 stale_cl st2 =
     Inr \<lparr>servers = [100 \<mapsto> \<lparr>host = ''0.0.0.0'', port = 7000, clients = [202, 202, 0, 0, 0],
                               num_clients = 1, ids = 2\<rparr>],
          heap = [201 \<mapsto> \<lparr>id' = 0, slot = 0, server = 100\<rparr>,
                  206 \<mapsto> \<lparr>id' = 7, slot = 0, server = 100\<rparr>,
                  202 \<mapsto> \<lparr>id' = 1, slot = 0, server = 100\<rparr>],
          bufs = [300 \<mapsto> ''go''],
          trace = [Log_info ''Accepting Connection'' [], Malloc_client 206, Uv_tcp_init 206,
                   Uv_accept 100 206, Log_error ''trying to accept connection %d'' [- 24],
                   Call_disconnected 206 1,
                   Log_info ''Player %d quit, %d total now.'' [7, 1], Malloc_write_req,
                   Uv_write 202 ''Player quit :(\<newline>'', Malloc_shutdown_req,
                   Uv_shutdown 206]\<rparr>"
  by (simp add: eval_defs env_afail_def stale_cl_def st2_def)

text \<open>With a block whose \<open>server\<close> field is null the same call dereferences it.\<close>

lemma accept_failure_null_server:
  "onconnection env_afail (app_hooks env_afail) 100 0 206 junk_cl st2 = Inl Null_deref"
  by (simp add: eval_defs env_afail_def st2_def)

end
